theory Spec2Isabelle
  imports Main "HOL-Library.Multiset"
begin

section \<open>Data model (the types of console/src/views/LinkList.vue)\<close>

text \<open>
  A Link and a LinkGroup are JSON resources with a \<open>metadata\<close> and a \<open>spec\<close> object.
  The view guards every access to \<open>link.spec\<close> (\<open>if (link.spec)\<close>, \<open>a.spec?.priority\<close>) and
  to the membership of a group (\<open>selectedGroup.value?.spec?.links\<close>), so these fields are
  optional here. A priority is a JSON integer.
\<close>

record metadata =
  name :: string
  creationTimestamp :: "string option"
  deletionTimestamp :: "string option"

record link_spec =
  displayName :: string
  url :: string
  description :: "string option"
  logo :: "string option"
  priority :: "int option"

record link =
  metadata :: metadata
  spec :: "link_spec option"

record link_group_spec =
  group_displayName :: string
  group_priority :: "int option"
  links :: "string list option"

record link_group =
  group_metadata :: metadata
  group_spec :: "link_group_spec option"

text \<open>
  \<open>LinkList\<close>: one page of a list response. On the wire the items are Link values; in the
  view (\<open>links.value\<close>) they are references to Link objects.
\<close>

record 'a link_list =
  page :: nat
  size_l :: nat
  total_l :: nat
  items :: "'a list"
  first_l :: bool
  last_l :: bool
  hasNext :: bool
  hasPrevious :: bool
  totalPages :: nat

section \<open>Effects: promises, requests, the object store\<close>

datatype error = NetworkError | ParseError | TypeError

text \<open>
  A promise is given by the environment: the instant of the event loop's logical clock at
  which it settles, and its outcome (\<open>Inl\<close> is a rejection).
\<close>

datatype 'a promise = Promise (settle_time: nat) (outcome: "error + 'a")

datatype request =
    GetLinks nat nat string
  | PutLink string link
  | PutLinkGroup string link_group
  | DeleteLink string

datatype event =
    Request request
  | ConsoleError
  | SetLoading bool
  | FetchGroups
  | Download string string string

type_synonym addr = nat

text \<open>
  The Fuse index built by the watcher: the collection it was given (\<open>docs\<close>, the array of
  object references) and the field values it extracted from each entry at that moment.
\<close>

record fuse_index =
  docs :: "addr list"
  records :: "link list"

text \<open>
  The cache of the computed property \<open>searchResults\<close>: the value of the last run of its
  getter and the reactive sources that run read. A computed property runs its getter again
  only after one of those sources has been written.
\<close>

record computed_cache =
  cached_value :: "addr list"
  tracks_keyword :: bool
  tracks_links :: bool

text \<open>
  The refs of the component. Link objects live in \<open>heap\<close> (an address is an index into it),
  so that two references to one object see each other's writes. \<open>trace\<close> is the history of
  what the component did, each entry with the instant at which it happened.
  \<open>searchResults_cache\<close> is \<open>None\<close> while the computed property has not run or has been
  invalidated.
\<close>

record state =
  clock :: nat
  trace :: "(nat \<times> event) list"
  heap :: "link list"
  links_value :: "addr link_list"
  loading :: bool
  selectedLink :: "addr option"
  selectedLinks :: "string list"
  selectedGroup :: "link_group option"
  keyword :: string
  fuse :: "fuse_index option"
  searchResults_cache :: "computed_cache option"

definition emit :: "event \<Rightarrow> state \<Rightarrow> state" where
  "emit e s = s\<lparr>trace := trace s @ [(clock s, e)]\<rparr>"

definition set_loading :: "bool \<Rightarrow> state \<Rightarrow> state" where
  "set_loading b s = emit (SetLoading b) (s\<lparr>loading := b\<rparr>)"

text \<open>\<open>await p\<close>: the handler resumes when \<open>p\<close> has settled, with its outcome.\<close>

definition await :: "'a promise \<Rightarrow> state \<Rightarrow> (error + 'a) \<times> state" where
  "await p s = (outcome p, s\<lparr>clock := max (clock s) (settle_time p)\<rparr>)"

text \<open>
  A write to \<open>links.value\<close> or to \<open>links.value.items\<close>, and a write to \<open>keyword.value\<close>:
  the cached \<open>searchResults\<close> is invalidated when its last run read that source.
\<close>

definition invalidate_links :: "state \<Rightarrow> state" where
  "invalidate_links s =
     (case searchResults_cache s of
        None \<Rightarrow> s
      | Some c \<Rightarrow> if tracks_links c then s\<lparr>searchResults_cache := None\<rparr> else s)"

definition invalidate_keyword :: "state \<Rightarrow> state" where
  "invalidate_keyword s =
     (case searchResults_cache s of
        None \<Rightarrow> s
      | Some c \<Rightarrow> if tracks_keyword c then s\<lparr>searchResults_cache := None\<rparr> else s)"

definition new_events :: "state \<Rightarrow> state \<Rightarrow> (nat \<times> event) list" where
  "new_events s s' = drop (length (trace s)) (trace s')"

definition page_links :: "state \<Rightarrow> link list" where
  "page_links s = map (\<lambda>a. heap s ! a) (items (links_value s))"

section \<open>handleFetchLinks\<close>

record options =
  mute :: "bool option"
  page_option :: "nat option"

text \<open>\<open>options?.mute\<close> and \<open>options?.page\<close> as conditions.\<close>

definition is_muted :: "options option \<Rightarrow> bool" where
  "is_muted opts =
     (case opts of None \<Rightarrow> False
      | Some opt \<Rightarrow> (case mute opt of None \<Rightarrow> False | Some b \<Rightarrow> b))"

definition requested_page :: "options option \<Rightarrow> nat option" where
  "requested_page opts =
     (case opts of None \<Rightarrow> None
      | Some opt \<Rightarrow>
          (case page_option opt of None \<Rightarrow> None
           | Some p \<Rightarrow> if p = 0 then None else Some p))"

text \<open>\<open>selectedGroup.value?.spec?.links\<close>: an array, also an empty one, is truthy.\<close>

definition membership :: "link_group option \<Rightarrow> string list option" where
  "membership g =
     (case g of None \<Rightarrow> None
      | Some grp \<Rightarrow> (case group_spec grp of None \<Rightarrow> None | Some sp \<Rightarrow> links sp))"

text \<open>\<open>Array.prototype.join\<close>.\<close>

fun join :: "string \<Rightarrow> string list \<Rightarrow> string" where
  "join sep [] = []"
| "join sep [x] = x"
| "join sep (x # y # ys) = x @ sep @ join sep (y # ys)"

definition fieldSelector :: "string list \<Rightarrow> string" where
  "fieldSelector ls = ''name=('' @ join '','' ls @ '')''"

text \<open>\<open>p || 0\<close> on an optional number.\<close>

definition or_zero :: "int option \<Rightarrow> int" where
  "or_zero p = (case p of None \<Rightarrow> 0 | Some n \<Rightarrow> n)"

text \<open>The callback of \<open>data.items.map\<close>.\<close>

definition default_priority :: "link \<Rightarrow> link" where
  "default_priority l =
     (case spec l of
        None \<Rightarrow> l
      | Some sp \<Rightarrow> l\<lparr>spec := Some (sp\<lparr>priority := Some (or_zero (priority sp))\<rparr>)\<rparr>)"

text \<open>\<open>a.spec?.priority || 0\<close>, and the comparator of the sort.\<close>

definition effective_priority :: "link \<Rightarrow> int" where
  "effective_priority l = (case spec l of None \<Rightarrow> 0 | Some sp \<Rightarrow> or_zero (priority sp))"

definition compare_priority :: "link \<Rightarrow> link \<Rightarrow> int" where
  "compare_priority a b = effective_priority a - effective_priority b"

text \<open>
  \<open>Array.prototype.sort\<close> with a comparator: ECMAScript requires a stable sort; it is
  modelled by a stable insertion sort that only consults the comparator.
\<close>

fun insert_by :: "('a \<Rightarrow> 'a \<Rightarrow> int) \<Rightarrow> 'a \<Rightarrow> 'a list \<Rightarrow> 'a list" where
  "insert_by cmp x [] = [x]"
| "insert_by cmp x (y # ys) =
     (if cmp x y \<le> 0 then x # y # ys else y # insert_by cmp x ys)"

definition array_sort :: "('a \<Rightarrow> 'a \<Rightarrow> int) \<Rightarrow> 'a list \<Rightarrow> 'a list" where
  "array_sort cmp xs = foldr (insert_by cmp) xs []"

text \<open>
  The watcher on \<open>links.value\<close>: \<open>new Fuse(links.value.items, ...)\<close>. It runs when
  \<open>links.value\<close> is replaced, that is after the assignment in \<open>handleFetchLinks\<close>.
\<close>

definition rebuild_fuse :: "state \<Rightarrow> state" where
  "rebuild_fuse s =
     s\<lparr>fuse := Some \<lparr>docs = items (links_value s), records = page_links s\<rparr>\<rparr>"

text \<open>
  \<open>links.value = { ...data, items: data.items.map(...).sort(...) }\<close>. The objects of the
  response are new objects: they are stored at fresh addresses, in the order of the sorted
  array. The assignment is a write to \<open>links.value\<close>: it invalidates what read it and
  starts the watcher.
\<close>

definition assign_links :: "link link_list \<Rightarrow> state \<Rightarrow> state" where
  "assign_links data s =
     (let sorted_items = array_sort compare_priority (map default_priority (items data));
          base = length (heap s)
      in rebuild_fuse
           (invalidate_links
              (s\<lparr>heap := heap s @ sorted_items,
                 links_value :=
                   \<lparr>page = page data, size_l = size_l data, total_l = total_l data,
                    items = [base ..< base + length sorted_items],
                    first_l = first_l data, last_l = last_l data, hasNext = hasNext data,
                    hasPrevious = hasPrevious data, totalPages = totalPages data\<rparr>\<rparr>)))"

text \<open>
  The body of the \<open>try\<close> after the guard, with \<open>catch\<close>: the request, the wait for the
  response, and either the assignment or \<open>console.error\<close>.
\<close>

definition request_links :: "string list \<Rightarrow> link link_list promise \<Rightarrow> state \<Rightarrow> state" where
  "request_links ls resp s =
     (let s1 = emit (Request (GetLinks (page (links_value s)) (size_l (links_value s))
                        (fieldSelector ls))) s;
          (r, s2) = await resp s1
      in case r of
           Inl e \<Rightarrow> emit ConsoleError s2
         | Inr data \<Rightarrow> assign_links data s2)"

definition handleFetchLinks :: "options option \<Rightarrow> link link_list promise \<Rightarrow> state \<Rightarrow> state" where
  "handleFetchLinks opts resp s =
     (let s1 = (if \<not> is_muted opts then set_loading True s else s);
          s2 = (case requested_page opts of
                  None \<Rightarrow> s1
                | Some p \<Rightarrow> s1\<lparr>links_value := (links_value s1)\<lparr>page := p\<rparr>\<rparr>)
      in case membership (selectedGroup s2) of
           None \<Rightarrow> set_loading False s2
         | Some ls \<Rightarrow> set_loading False (request_links ls resp s2))"

section \<open>handleSelectPrevious, handleSelectNext\<close>

text \<open>\<open>xs[i]\<close>: reading past the end of an array gives \<open>undefined\<close>.\<close>

definition nth_opt :: "'a list \<Rightarrow> nat \<Rightarrow> 'a option" where
  "nth_opt xs i = (if i < length xs then Some (xs ! i) else None)"

text \<open>\<open>Array.prototype.findIndex\<close>: the first index that satisfies the test, or -1.\<close>

fun findIndex :: "('a \<Rightarrow> bool) \<Rightarrow> 'a list \<Rightarrow> int" where
  "findIndex P [] = - 1"
| "findIndex P (x # xs) =
     (if P x then 0 else (let i = findIndex P xs in if i < 0 then - 1 else i + 1))"

text \<open>
  \<open>links.value.items.findIndex((link) => link.metadata.name ===
  selectedLink.value?.metadata.name)\<close>: with no selected Link the right-hand side is
  \<open>undefined\<close> and no name equals it.
\<close>

definition currentIndex :: "state \<Rightarrow> int" where
  "currentIndex s =
     findIndex
       (\<lambda>a. Some (name (metadata (heap s ! a)))
              = map_option (\<lambda>b. name (metadata (heap s ! b))) (selectedLink s))
       (items (links_value s))"

definition handleSelectPrevious :: "state \<Rightarrow> state" where
  "handleSelectPrevious s =
     (if currentIndex s > 0
      then s\<lparr>selectedLink := nth_opt (items (links_value s)) (nat (currentIndex s - 1))\<rparr>
      else if currentIndex s \<le> 0 then s\<lparr>selectedLink := None\<rparr>
      else s)"

definition handleSelectNext :: "state \<Rightarrow> state" where
  "handleSelectNext s =
     (case selectedLink s of
        None \<Rightarrow> s\<lparr>selectedLink := nth_opt (items (links_value s)) 0\<rparr>
      | Some sel \<Rightarrow>
          if currentIndex s \<noteq> int (length (items (links_value s))) - 1
          then s\<lparr>selectedLink := nth_opt (items (links_value s)) (nat (currentIndex s + 1))\<rparr>
          else s)"

section \<open>handleSaveInBatch\<close>

text \<open>
  \<open>Promise.all\<close>: fulfilled once every promise is fulfilled; rejected as soon as one of
  them is rejected, with the reason of the earliest rejection.
\<close>

fun earliest :: "'a promise \<Rightarrow> 'a promise list \<Rightarrow> 'a promise" where
  "earliest p [] = p"
| "earliest p (q # qs) = earliest (if settle_time q < settle_time p then q else p) qs"

definition promise_all :: "'a promise list \<Rightarrow> 'a list promise" where
  "promise_all ps =
     (case filter (\<lambda>p. isl (outcome p)) ps of
        [] \<Rightarrow> Promise (foldr max (map settle_time ps) 0) (Inr (map (\<lambda>p. projr (outcome p)) ps))
      | r # rs \<Rightarrow>
          Promise (settle_time (earliest r rs)) (Inl (projl (outcome (earliest r rs)))))"

text \<open>\<open>if (link.spec) { link.spec.priority = index; }\<close>\<close>

definition with_priority :: "int \<Rightarrow> link \<Rightarrow> link" where
  "with_priority i l =
     (case spec l of None \<Rightarrow> l | Some sp \<Rightarrow> l\<lparr>spec := Some (sp\<lparr>priority := Some i\<rparr>)\<rparr>)"

text \<open>
  The callback of \<open>links.value.items.map((link, index) => ...)\<close>, item by item: the object
  is written in place, then the request is made with the object as its body.
\<close>

fun put_each :: "nat \<Rightarrow> addr list \<Rightarrow> state \<Rightarrow> state" where
  "put_each index [] s = s"
| "put_each index (a # as) s =
     (let l = with_priority (int index) (heap s ! a);
          s1 = s\<lparr>heap := (heap s)[a := l]\<rparr>
      in put_each (Suc index) as (emit (Request (PutLink (name (metadata l)) l)) s1))"

text \<open>The \<open>try\<close> block with its \<open>catch\<close>, then the \<open>finally\<close> block.\<close>

definition save_priorities :: "(nat \<Rightarrow> unit promise) \<Rightarrow> state \<Rightarrow> state" where
  "save_priorities put_result s =
     (let s1 = put_each 0 (items (links_value s)) s;
          promises = map put_result [0 ..< length (items (links_value s))];
          (r, s2) = await (promise_all promises) s1
      in case r of Inl e \<Rightarrow> emit ConsoleError s2 | Inr done \<Rightarrow> s2)"

definition handleSaveInBatch ::
    "(nat \<Rightarrow> unit promise) \<Rightarrow> link link_list promise \<Rightarrow> state \<Rightarrow> state" where
  "handleSaveInBatch put_result resp s =
     handleFetchLinks (Some \<lparr>mute = Some True, page_option = None\<rparr>) resp
       (save_priorities put_result s)"

text \<open>
  The resource API is an external collaborator: a replace (PUT) of a Link that succeeds
  stores the body of the request under the identifier of its path.
\<close>

definition replace_link :: "request \<Rightarrow> (string \<rightharpoonup> link) \<Rightarrow> (string \<rightharpoonup> link)" where
  "replace_link r store = (case r of PutLink n body \<Rightarrow> store(n \<mapsto> body) | _ \<Rightarrow> store)"

definition persist :: "request list \<Rightarrow> (string \<rightharpoonup> link) \<Rightarrow> (string \<rightharpoonup> link)" where
  "persist rs store = fold replace_link rs store"

definition requests_of :: "(nat \<times> event) list \<Rightarrow> request list" where
  "requests_of evs = concat (map (\<lambda>(t, e). case e of Request r \<Rightarrow> [r] | _ \<Rightarrow> []) evs)"

definition is_put_link :: "request \<Rightarrow> bool" where
  "is_put_link r = (case r of PutLink n body \<Rightarrow> True | _ \<Rightarrow> False)"

definition is_get_links :: "request \<Rightarrow> bool" where
  "is_get_links r = (case r of GetLinks p sz sel \<Rightarrow> True | _ \<Rightarrow> False)"

definition is_put_group :: "request \<Rightarrow> bool" where
  "is_put_group r = (case r of PutLinkGroup n body \<Rightarrow> True | _ \<Rightarrow> False)"

section \<open>onLinkSaved\<close>

text \<open>
  \<open>cloneDeep(selectedGroup.value)\<close>, the \<open>push\<close> on the copy and the awaited PUT.
  \<open>groupToUpdate.spec.links.push\<close> is not guarded: it throws a TypeError on a group
  without \<open>spec\<close> or without \<open>links\<close>. A rejected PUT is thrown by \<open>await\<close>.
\<close>

definition put_group :: "link \<Rightarrow> unit promise \<Rightarrow> state \<Rightarrow> error + state" where
  "put_group l put_result s =
     (case selectedGroup s of
        None \<Rightarrow> Inr s
      | Some g \<Rightarrow>
          (case group_spec g of
             None \<Rightarrow> Inl TypeError
           | Some sp \<Rightarrow>
               (case links sp of
                  None \<Rightarrow> Inl TypeError
                | Some ls \<Rightarrow>
                    (let groupToUpdate =
                           g\<lparr>group_spec := Some (sp\<lparr>links := Some (ls @ [name (metadata l)])\<rparr>)\<rparr>;
                         s1 = emit (Request (PutLinkGroup (name (group_metadata groupToUpdate))
                                      groupToUpdate)) s;
                         (r, s2) = await put_result s1
                     in case r of Inl e \<Rightarrow> Inl e | Inr done \<Rightarrow> Inr s2))))"

text \<open>
  \<open>groupListRef.value.handleFetchGroups()\<close> is a method of GroupList.vue, which is not
  among the sources: the call is recorded, and the promise it returns, with the value that
  GroupList leaves in \<open>selectedGroup\<close> (bound by \<open>v-model:selected-group\<close>), is given by the
  environment.
\<close>

definition onLinkSaved ::
    "link \<Rightarrow> unit promise \<Rightarrow> link_group option promise \<Rightarrow> link link_list promise
      \<Rightarrow> state \<Rightarrow> error + state" where
  "onLinkSaved l put_result groups_result resp s =
     (case put_group l put_result s of
        Inl e \<Rightarrow> Inl e
      | Inr s2 \<Rightarrow>
          (let (r, s3) = await groups_result (emit FetchGroups s2)
           in case r of
                Inl e \<Rightarrow> Inl e
              | Inr g \<Rightarrow> Inr (handleFetchLinks None resp (s3\<lparr>selectedGroup := g\<rparr>))))"

section \<open>handleDelete\<close>

text \<open>
  The \<open>onConfirm\<close> callback of the dialog. \<open>apiClient.delete(...)\<close> returns a promise that
  is not awaited: the \<open>try\<close> block ends normally whatever \<open>delete_result\<close> is, and
  \<open>finally\<close> calls \<open>handleFetchLinks()\<close> at once.
\<close>

definition handleDelete_onConfirm ::
    "addr \<Rightarrow> unit promise \<Rightarrow> link link_list promise \<Rightarrow> state \<Rightarrow> state" where
  "handleDelete_onConfirm a delete_result resp s =
     handleFetchLinks None resp
       (emit (Request (DeleteLink (name (metadata (heap s ! a))))) s)"

section \<open>handleExportSelectedLinks\<close>

text \<open>The test of \<open>.filter((link) => link)\<close>: \<open>undefined\<close> and the empty string are falsy.\<close>

definition truthy :: "string option \<Rightarrow> bool" where
  "truthy v = (case v of None \<Rightarrow> False | Some str \<Rightarrow> str \<noteq> [])"

definition document_separator :: string where
  "document_separator = [CHR ''-'', CHR ''-'', CHR ''-'', CHR 0x0A]"

text \<open>\<open>yaml.stringify\<close> belongs to a library: it is the parameter \<open>stringify\<close>.\<close>

definition exported_records :: "(link \<Rightarrow> string) \<Rightarrow> state \<Rightarrow> string list" where
  "exported_records stringify s =
     map the
       (filter truthy
          (map (\<lambda>l. if name (metadata l) \<in> set (selectedLinks s)
                     then Some (stringify l) else None)
               (page_links s)))"

definition handleExportSelectedLinks :: "(link \<Rightarrow> string) \<Rightarrow> state \<Rightarrow> state" where
  "handleExportSelectedLinks stringify s =
     (if length (items (links_value s)) = 0 then s
      else emit (Download ''links.yaml'' ''text/yaml''
                   (join document_separator (exported_records stringify s))) s)"

section \<open>searchResults\<close>

text \<open>
  \<open>fuse.search(keyword)\<close>. Fuse is a library: how well a keyword matches an indexed record
  is the parameter \<open>score\<close> (\<open>None\<close>: no match; a lower score is a better match). Every
  result is \<open>{ item: docs[idx], refIndex: idx }\<close> for a matching record \<open>idx\<close>, and the
  results are ordered by score, then by index.
\<close>

definition fuse_search ::
    "(string \<Rightarrow> link \<Rightarrow> nat option) \<Rightarrow> fuse_index \<Rightarrow> string \<Rightarrow> (addr \<times> nat) list" where
  "fuse_search score f kw =
     (let matches =
            concat (map (\<lambda>(idx, r). case score kw r of None \<Rightarrow> [] | Some sc \<Rightarrow> [(idx, sc)])
                        (enumerate 0 (records f)))
      in map (\<lambda>(idx, sc). (docs f ! idx, idx)) (sort_key snd matches))"

text \<open>
  The getter of \<open>searchResults\<close>, with the sources it reads. \<open>fuse\<close> is a plain variable,
  not a ref: reading it registers nothing, and with \<open>!fuse\<close> true the condition stops before
  \<open>keyword.value\<close>. With a keyword the getter reads \<open>keyword.value\<close> and the collection held
  by Fuse, which is the array of the page at the time the index was built and is never
  written; it does not read \<open>links.value\<close>.
\<close>

definition searchResults_getter ::
    "(string \<Rightarrow> link \<Rightarrow> nat option) \<Rightarrow> state \<Rightarrow> computed_cache" where
  "searchResults_getter score s =
     (case fuse s of
        None \<Rightarrow>
          \<lparr>cached_value = items (links_value s), tracks_keyword = False, tracks_links = True\<rparr>
      | Some f \<Rightarrow>
          if keyword s = []
          then \<lparr>cached_value = items (links_value s), tracks_keyword = True,
                tracks_links = True\<rparr>
          else \<lparr>cached_value = map fst (fuse_search score f (keyword s)),
                tracks_keyword = True, tracks_links = False\<rparr>)"

text \<open>
  A read of \<open>searchResults.value\<close>, as the template does when it renders: the cached value
  when there is one, a run of the getter otherwise.
\<close>

definition searchResults_read ::
    "(string \<Rightarrow> link \<Rightarrow> nat option) \<Rightarrow> state \<Rightarrow> addr list \<times> state" where
  "searchResults_read score s =
     (case searchResults_cache s of
        Some c \<Rightarrow> (cached_value c, s)
      | None \<Rightarrow>
          (let c = searchResults_getter score s
           in (cached_value c, s\<lparr>searchResults_cache := Some c\<rparr>)))"

text \<open>The setter of \<open>searchResults\<close>: \<open>links.value.items = value\<close>.\<close>

definition searchResults_set :: "addr list \<Rightarrow> state \<Rightarrow> state" where
  "searchResults_set v s = invalidate_links (s\<lparr>links_value := (links_value s)\<lparr>items := v\<rparr>\<rparr>)"

text \<open>The search field (\<open>v-model="keyword"\<close>): a write of another value to \<open>keyword.value\<close>.\<close>

definition set_keyword :: "string \<Rightarrow> state \<Rightarrow> state" where
  "set_keyword kw s = (if kw = keyword s then s else invalidate_keyword (s\<lparr>keyword := kw\<rparr>))"

text \<open>A write to a field of the object behind a reference.\<close>

definition write_link :: "addr \<Rightarrow> link \<Rightarrow> state \<Rightarrow> state" where
  "write_link a l s = s\<lparr>heap := (heap s)[a := l]\<rparr>"

section \<open>Notions used to state the properties\<close>

text \<open>The page number after \<open>if (options?.page) { links.value.page = options.page; }\<close>.\<close>

definition page_after :: "options option \<Rightarrow> state \<Rightarrow> nat" where
  "page_after opts s =
     (case requested_page opts of None \<Rightarrow> page (links_value s) | Some p \<Rightarrow> p)"

text \<open>
  The request of \<open>handleSaveInBatch\<close> for the item at position \<open>k\<close>, a reference \<open>a\<close>: a
  PUT to the path of the Link, with the Link carrying priority \<open>k\<close> as its body.
\<close>

definition put_request :: "state \<Rightarrow> nat \<times> addr \<Rightarrow> request" where
  "put_request s = (\<lambda>(k, a). PutLink (name (metadata (heap s ! a)))
                                (with_priority (int k) (heap s ! a)))"

text \<open>
  Whether every list request that \<open>handleSaveInBatch\<close> made was made at an instant at which
  all of its updates had settled.
\<close>

definition refetch_after_all_settled ::
    "(nat \<Rightarrow> unit promise) \<Rightarrow> link link_list promise \<Rightarrow> state \<Rightarrow> bool" where
  "refetch_after_all_settled put_result resp s =
     list_all
       (\<lambda>(t, e). case e of
                   Request r \<Rightarrow>
                     is_get_links r \<longrightarrow>
                       list_all (\<lambda>k. settle_time (put_result k) \<le> t)
                         [0 ..< length (items (links_value s))]
                 | _ \<Rightarrow> True)
       (new_events s (handleSaveInBatch put_result resp s))"

section \<open>Example inputs\<close>

definition link_of :: "string \<Rightarrow> int option \<Rightarrow> link" where
  "link_of n p =
     \<lparr>metadata = \<lparr>name = n, creationTimestamp = None, deletionTimestamp = None\<rparr>,
      spec = Some \<lparr>displayName = n, url = ''https://example.org/'' @ n, description = None,
                   logo = None, priority = p\<rparr>\<rparr>"

definition group_of :: "string \<Rightarrow> string list option \<Rightarrow> link_group" where
  "group_of n ls =
     \<lparr>group_metadata = \<lparr>name = n, creationTimestamp = None, deletionTimestamp = None\<rparr>,
      group_spec = Some \<lparr>group_displayName = n, group_priority = Some 0, links = ls\<rparr>\<rparr>"

text \<open>The initial values of the refs.\<close>

definition initial_state :: state where
  "initial_state =
     \<lparr>clock = 0, trace = [], heap = [],
      links_value = \<lparr>page = 1, size_l = 20, total_l = 0, items = [], first_l = True,
                      last_l = False, hasNext = False, hasPrevious = False, totalPages = 0\<rparr>,
      loading = False, selectedLink = None, selectedLinks = [], selectedGroup = None,
      keyword = [], fuse = None, searchResults_cache = None\<rparr>"

definition example_group :: link_group where
  "example_group = group_of ''g'' (Some [''a'', ''b'', ''c''])"

definition example_response :: "link link_list" where
  "example_response =
     \<lparr>page = 1, size_l = 20, total_l = 3,
      items = [link_of ''a'' (Some 2), link_of ''b'' None, link_of ''c'' (Some 0)],
      first_l = True, last_l = True, hasNext = False, hasPrevious = False, totalPages = 1\<rparr>"

definition loaded_state :: state where
  "loaded_state =
     handleFetchLinks None (Promise 1 (Inr example_response))
       (initial_state\<lparr>selectedGroup := Some example_group\<rparr>)"

definition no_options :: "options option" where
  "no_options = None"

definition muted :: "options option" where
  "muted = Some \<lparr>mute = Some True, page_option = None\<rparr>"

definition failed_response :: "link link_list promise" where
  "failed_response = Promise 4 (Inl NetworkError)"

definition absent_links_state :: state where
  "absent_links_state = loaded_state\<lparr>selectedGroup := Some (group_of ''h'' None)\<rparr>"

definition empty_links_state :: state where
  "empty_links_state = loaded_state\<lparr>selectedGroup := Some (group_of ''h'' (Some []))\<rparr>"

definition first_selected_state :: state where
  "first_selected_state = loaded_state\<lparr>selectedLink := Some 0\<rparr>"

definition last_selected_state :: state where
  "last_selected_state = loaded_state\<lparr>selectedLink := Some 2\<rparr>"

definition selection_state :: state where
  "selection_state = loaded_state\<lparr>selectedLinks := [''a'', ''b'']\<rparr>"

definition example_stringify :: "link \<Rightarrow> string" where
  "example_stringify l = ''name: '' @ name (metadata l) @ [CHR 0x0A]"

text \<open>A scoring for the examples: the records named a and b match, equally well.\<close>

definition example_matching :: "string \<Rightarrow> link \<Rightarrow> nat option" where
  "example_matching kw l = (if name (metadata l) \<in> {''a'', ''b''} then Some 0 else None)"

definition group_selected_state :: state where
  "group_selected_state = initial_state\<lparr>selectedGroup := Some example_group\<rparr>"

definition example_promise :: "link link_list promise" where
  "example_promise = Promise 1 (Inr example_response)"

definition delete_failure :: "unit promise" where
  "delete_failure = Promise 9 (Inl NetworkError)"

definition delete_success :: "unit promise" where
  "delete_success = Promise 2 (Inr ())"

definition refetch_promise :: "link link_list promise" where
  "refetch_promise = Promise 3 (Inr example_response)"

definition write_success :: "unit promise" where
  "write_success = Promise 2 (Inr ())"

definition updated_group :: link_group where
  "updated_group = group_of ''g'' (Some [''a'', ''b'', ''c'', ''d''])"

definition groups_promise :: "link_group option promise" where
  "groups_promise = Promise 3 (Inr (Some updated_group))"

definition no_group_promise :: "link_group option promise" where
  "no_group_promise = Promise 3 (Inr None)"

definition late_promise :: "link link_list promise" where
  "late_promise = Promise 5 (Inr example_response)"

text \<open>The page after a drag that moved the last item, a, to the front.\<close>

definition reordered_state :: state where
  "reordered_state = searchResults_set [2, 0, 1] loaded_state"

definition all_fulfilled :: "nat \<Rightarrow> unit promise" where
  "all_fulfilled k = Promise (2 + k) (Inr ())"

definition first_rejected :: "nat \<Rightarrow> unit promise" where
  "first_rejected k =
     (if k = 0 then Promise 2 (Inl NetworkError)
      else if k = 1 then Promise 9 (Inr ())
      else Promise 4 (Inr ()))"

definition late_failure :: "link link_list promise" where
  "late_failure = Promise 7 (Inl NetworkError)"

text \<open>
  The loaded page is rendered, the keyword x is typed and the view is rendered again, then
  a muted refetch returns the same three Links.
\<close>

definition rendered_state :: state where
  "rendered_state = snd (searchResults_read example_matching loaded_state)"

definition searching_state :: state where
  "searching_state = snd (searchResults_read example_matching (set_keyword ''x'' rendered_state))"

definition refetched_state :: state where
  "refetched_state = handleFetchLinks muted refetch_promise searching_state"

section \<open>Properties of handleFetchLinks: the page after a fetch\<close>

lemma invalidate_links_frame [simp]:
  "clock (invalidate_links s) = clock s"
  "trace (invalidate_links s) = trace s"
  "heap (invalidate_links s) = heap s"
  "links_value (invalidate_links s) = links_value s"
  "loading (invalidate_links s) = loading s"
  "selectedLink (invalidate_links s) = selectedLink s"
  "selectedLinks (invalidate_links s) = selectedLinks s"
  "selectedGroup (invalidate_links s) = selectedGroup s"
  "keyword (invalidate_links s) = keyword s"
  "fuse (invalidate_links s) = fuse s"
  by (simp_all add: invalidate_links_def split: option.splits)

lemma page_links_invalidate_links [simp]: "page_links (invalidate_links s) = page_links s"
  by (simp add: page_links_def)


lemma insert_by_insort_key:
  "insert_by (\<lambda>a b. f a - f b) x ys = insort_key (f :: 'a \<Rightarrow> int) x ys"
  by (induction ys) auto

lemma array_sort_sort_key:
  "array_sort (\<lambda>a b. f a - f b) xs = sort_key (f :: 'a \<Rightarrow> int) xs"
  by (induction xs) (auto simp: array_sort_def insert_by_insort_key sort_key_def)

lemma array_sort_priority:
  "array_sort compare_priority xs = sort_key effective_priority xs"
  using array_sort_sort_key [of effective_priority xs]
  by (simp add: compare_priority_def [abs_def])

lemma nth_fresh:
  "map (\<lambda>a. (h @ xs) ! a) [length h ..< length h + length xs] = xs"
  by (rule nth_equalityI) (simp_all add: nth_append)

lemma page_links_assign_links:
  "page_links (assign_links data s)
     = array_sort compare_priority (map default_priority (items data))"
  by (simp add: assign_links_def rebuild_fuse_def page_links_def Let_def nth_fresh)

lemma page_links_emit [simp]: "page_links (emit e s) = page_links s"
  by (simp add: emit_def page_links_def)

lemma page_links_set_loading [simp]: "page_links (set_loading b s) = page_links s"
  by (simp add: set_loading_def page_links_def emit_def)

lemma page_links_request_links:
  "outcome resp = Inr data \<Longrightarrow>
   page_links (request_links ls resp s)
     = array_sort compare_priority (map default_priority (items data))"
  by (simp add: request_links_def await_def Let_def page_links_assign_links)

lemma selectedGroup_emit [simp]: "selectedGroup (emit e s) = selectedGroup s"
  by (simp add: emit_def)

lemma selectedGroup_set_loading [simp]: "selectedGroup (set_loading b s) = selectedGroup s"
  by (simp add: set_loading_def emit_def)

lemma page_links_handleFetchLinks:
  "membership (selectedGroup s) = Some ls \<Longrightarrow> outcome resp = Inr data \<Longrightarrow>
   page_links (handleFetchLinks opts resp s)
     = sort_key effective_priority (map default_priority (items data))"
  by (simp add: handleFetchLinks_def Let_def page_links_request_links array_sort_priority
        split: option.splits)

lemma effective_priority_default [simp]:
  "effective_priority (default_priority l) = effective_priority l"
  by (simp add: effective_priority_def default_priority_def or_zero_def split: option.splits)

lemma default_priority_absent:
  "spec l = Some sp \<Longrightarrow> priority sp = None \<Longrightarrow>
   default_priority l = l\<lparr>spec := Some (sp\<lparr>priority := Some 0\<rparr>)\<rparr>"
  by (simp add: default_priority_def or_zero_def)

lemma default_priority_present:
  "spec l = Some sp \<Longrightarrow> priority sp = Some n \<Longrightarrow> default_priority l = l"
  by (simp add: default_priority_def or_zero_def)

lemma default_priority_defined:
  "spec (default_priority l) = Some sp \<Longrightarrow> priority sp = Some (effective_priority l)"
  by (auto simp: default_priority_def effective_priority_def split: option.splits)

text \<open>
  Claim C2. After a fetch that succeeds, the page in memory is the returned page with the
  priority of every Link that has none set to 0, sorted ascending by that priority
  whatever order the server used, and Links of equal priority stay in the order in which
  the server returned them.
\<close>

theorem fetch_defaults_and_sorts:
  assumes group: "membership (selectedGroup s) = Some ls"
    and ok: "outcome resp = Inr data"
  shows "mset (page_links (handleFetchLinks opts resp s))
           = mset (map default_priority (items data))
       \<and> (\<forall>l \<in> set (items data). \<forall>sp. spec l = Some sp \<longrightarrow>
             default_priority l
               = (if priority sp = None then l\<lparr>spec := Some (sp\<lparr>priority := Some 0\<rparr>)\<rparr> else l))
       \<and> (\<forall>l \<in> set (page_links (handleFetchLinks opts resp s)). \<forall>sp. spec l = Some sp \<longrightarrow>
             priority sp = Some (effective_priority l))
       \<and> sorted (map effective_priority (page_links (handleFetchLinks opts resp s)))
       \<and> (\<forall>k. filter (\<lambda>l. effective_priority l = k) (page_links (handleFetchLinks opts resp s))
              = filter (\<lambda>l. effective_priority l = k) (map default_priority (items data)))"
proof -
  let ?returned = "map default_priority (items data)"
  have page: "page_links (handleFetchLinks opts resp s) = sort_key effective_priority ?returned"
    using group ok by (rule page_links_handleFetchLinks)
  have perm: "mset (sort_key effective_priority ?returned) = mset ?returned"
    by simp
  have dflt: "\<forall>l \<in> set (items data). \<forall>sp. spec l = Some sp \<longrightarrow>
      default_priority l
        = (if priority sp = None then l\<lparr>spec := Some (sp\<lparr>priority := Some 0\<rparr>)\<rparr> else l)"
    by (auto simp: default_priority_absent default_priority_present)
  have defined: "\<forall>l \<in> set (sort_key effective_priority ?returned). \<forall>sp. spec l = Some sp \<longrightarrow>
      priority sp = Some (effective_priority l)"
  proof (intro ballI allI impI)
    fix l sp
    assume "l \<in> set (sort_key effective_priority ?returned)" and sp: "spec l = Some sp"
    then obtain l0 where l: "l = default_priority l0" by auto
    from sp show "priority sp = Some (effective_priority l)"
      unfolding l by (simp add: default_priority_defined)
  qed
  have ordered: "sorted (map effective_priority (sort_key effective_priority ?returned))"
    by (rule sorted_sort_key)
  have stable: "\<forall>k. filter (\<lambda>l. effective_priority l = k) (sort_key effective_priority ?returned)
              = filter (\<lambda>l. effective_priority l = k) ?returned"
    by (simp add: sort_key_stable)
  show ?thesis
    unfolding page using perm dflt defined ordered stable by blast
qed

text \<open>
  The response a, b, c with priorities 2, none, 0 is stored as b, c, a: b now has
  priority 0 and stays before c.
\<close>

theorem fetch_defaults_and_sorts_witness:
  "membership (selectedGroup (initial_state\<lparr>selectedGroup := Some example_group\<rparr>))
     = Some [''a'', ''b'', ''c'']
   \<and> outcome (Promise 1 (Inr example_response)) = Inr example_response
   \<and> link_of ''b'' None \<in> set (items example_response)
   \<and> link_of ''b'' (Some 0) \<in> set (page_links loaded_state)
   \<and> map (name \<circ> metadata) (page_links loaded_state) = [''b'', ''c'', ''a'']
   \<and> sorted (map effective_priority (page_links loaded_state))
   \<and> filter (\<lambda>l. effective_priority l = 0) (page_links loaded_state)
       = filter (\<lambda>l. effective_priority l = 0) (map default_priority (items example_response))"
proof -
  have group: "membership (selectedGroup (initial_state\<lparr>selectedGroup := Some example_group\<rparr>))
     = Some [''a'', ''b'', ''c'']"
    by code_simp
  have ok: "outcome (Promise 1 (Inr example_response)) = Inr example_response"
    by simp
  have member: "link_of ''b'' None \<in> set (items example_response)"
    by code_simp
  have defaulted: "link_of ''b'' (Some 0) \<in> set (page_links loaded_state)"
    by code_simp
  have order: "map (name \<circ> metadata) (page_links loaded_state) = [''b'', ''c'', ''a'']"
    by code_simp
  from fetch_defaults_and_sorts [OF group ok, of None]
  show ?thesis
    using group ok member defaulted order unfolding loaded_state_def by blast
qed

section \<open>Properties of handleFetchLinks: the guard and the failure path\<close>

lemmas fetch_defs = handleFetchLinks_def set_loading_def emit_def request_links_def await_def
  Let_def new_events_def page_links_def

lemma membership_None_iff:
  "membership g = None \<longleftrightarrow>
     g = None \<or> (\<exists>grp. g = Some grp \<and>
        (group_spec grp = None \<or> (\<exists>sp. group_spec grp = Some sp \<and> links sp = None)))"
  by (auto simp: membership_def split: option.splits)

lemma fetch_skipped:
  assumes "membership (selectedGroup s) = None"
  shows "handleFetchLinks opts resp s =
     s\<lparr>loading := False,
       links_value := (links_value s)\<lparr>page := page_after opts s\<rparr>,
       trace := trace s @ (if is_muted opts then [] else [(clock s, SetLoading True)])
                  @ [(clock s, SetLoading False)]\<rparr>"
  using assms by (simp add: fetch_defs page_after_def split: option.splits)

lemma fetch_failed:
  assumes "membership (selectedGroup s) = Some ls" and "outcome resp = Inl e"
  shows "handleFetchLinks opts resp s =
     s\<lparr>clock := max (clock s) (settle_time resp),
       loading := False,
       links_value := (links_value s)\<lparr>page := page_after opts s\<rparr>,
       trace := trace s @ (if is_muted opts then [] else [(clock s, SetLoading True)])
                  @ [(clock s, Request (GetLinks (page_after opts s) (size_l (links_value s))
                                          (fieldSelector ls))),
                     (max (clock s) (settle_time resp), ConsoleError),
                     (max (clock s) (settle_time resp), SetLoading False)]\<rparr>"
  using assms by (simp add: fetch_defs page_after_def split: option.splits)

lemma fetch_trace_success:
  assumes "membership (selectedGroup s) = Some ls" and "outcome resp = Inr data"
  shows "trace (handleFetchLinks opts resp s) =
       trace s @ (if is_muted opts then [] else [(clock s, SetLoading True)])
                  @ [(clock s, Request (GetLinks (page_after opts s) (size_l (links_value s))
                                          (fieldSelector ls))),
                     (max (clock s) (settle_time resp), SetLoading False)]"
  using assms by (simp add: fetch_defs page_after_def assign_links_def rebuild_fuse_def split: option.splits)

lemma fetch_requests:
  assumes "membership (selectedGroup s) = Some ls"
  shows "requests_of (new_events s (handleFetchLinks opts resp s))
           = [GetLinks (page_after opts s) (size_l (links_value s)) (fieldSelector ls)]"
proof (cases "outcome resp")
  case (Inl e)
  show ?thesis
    by (simp add: fetch_failed [OF assms Inl] new_events_def requests_of_def)
next
  case (Inr data)
  show ?thesis
    by (simp add: fetch_trace_success [OF assms Inr] new_events_def requests_of_def)
qed

text \<open>
  Claim C5. When the list request is rejected (a network error, or a response that cannot
  be read), \<open>handleFetchLinks\<close> logs the error, returns normally (it yields a state in all
  cases: the \<open>catch\<close> lets nothing escape), leaves \<open>loading\<close> false, and keeps the page it
  held before: no item of the collection is replaced.
\<close>

theorem fetch_failure_keeps_page:
  assumes group: "membership (selectedGroup s) = Some ls"
    and failed: "outcome resp = Inl e"
  shows "loading (handleFetchLinks opts resp s) = False
       \<and> (max (clock s) (settle_time resp), ConsoleError)
            \<in> set (new_events s (handleFetchLinks opts resp s))
       \<and> items (links_value (handleFetchLinks opts resp s)) = items (links_value s)
       \<and> heap (handleFetchLinks opts resp s) = heap s
       \<and> page_links (handleFetchLinks opts resp s) = page_links s
       \<and> fuse (handleFetchLinks opts resp s) = fuse s
       \<and> handleFetchLinks opts resp s =
           s\<lparr>clock := max (clock s) (settle_time resp),
             loading := False,
             links_value := (links_value s)\<lparr>page := page_after opts s\<rparr>,
             trace := trace s @ (if is_muted opts then [] else [(clock s, SetLoading True)])
                  @ [(clock s, Request (GetLinks (page_after opts s) (size_l (links_value s))
                                          (fieldSelector ls))),
                     (max (clock s) (settle_time resp), ConsoleError),
                     (max (clock s) (settle_time resp), SetLoading False)]\<rparr>"
  by (simp add: fetch_failed [OF group failed] new_events_def page_links_def)

theorem fetch_failure_keeps_page_witness:
  "membership (selectedGroup loaded_state) = Some [''a'', ''b'', ''c'']
   \<and> outcome failed_response = Inl NetworkError
   \<and> loading (handleFetchLinks no_options failed_response loaded_state) = False
   \<and> page_links (handleFetchLinks no_options failed_response loaded_state)
        = [link_of ''b'' (Some 0), link_of ''c'' (Some 0), link_of ''a'' (Some 2)]
   \<and> new_events loaded_state (handleFetchLinks no_options failed_response loaded_state)
        = [(1, SetLoading True), (1, Request (GetLinks 1 20 ''name=(a,b,c)'')),
           (4, ConsoleError), (4, SetLoading False)]"
proof -
  have group: "membership (selectedGroup loaded_state) = Some [''a'', ''b'', ''c'']"
    by code_simp
  have failed: "outcome failed_response = Inl NetworkError"
    by code_simp
  have before: "page_links loaded_state
        = [link_of ''b'' (Some 0), link_of ''c'' (Some 0), link_of ''a'' (Some 2)]"
    by code_simp
  have events: "new_events loaded_state (handleFetchLinks no_options failed_response loaded_state)
        = [(1, SetLoading True), (1, Request (GetLinks 1 20 ''name=(a,b,c)'')),
           (4, ConsoleError), (4, SetLoading False)]"
    by code_simp
  note kept = fetch_failure_keeps_page [OF group failed, of no_options]
  from kept have cleared: "loading (handleFetchLinks no_options failed_response loaded_state) = False"
    by (rule conjunct1)
  from kept have "page_links (handleFetchLinks no_options failed_response loaded_state)
      = page_links loaded_state"
    by blast
  with before have same: "page_links (handleFetchLinks no_options failed_response loaded_state)
      = [link_of ''b'' (Some 0), link_of ''c'' (Some 0), link_of ''a'' (Some 2)]"
    by (simp only:)
  from group failed cleared same events show ?thesis
    by blast
qed

text \<open>
  Claim C9. \<open>handleFetchLinks\<close> makes no request exactly when the selected group has no
  \<open>links\<close> field (or has no \<open>spec\<close>, or no group is selected); the items of the page are
  then left as they were, and \<open>loading\<close> is still set, and reset, unless the call is muted.
  When the membership is present a list request is made, also for an empty membership,
  whose selector is \<open>name=()\<close>.
\<close>

theorem fetch_guard:
  "(requests_of (new_events s (handleFetchLinks opts resp s)) = [])
      = (membership (selectedGroup s) = None)
   \<and> (membership (selectedGroup s) = None) =
       (selectedGroup s = None \<or> (\<exists>grp. selectedGroup s = Some grp \<and>
          (group_spec grp = None \<or> (\<exists>sp. group_spec grp = Some sp \<and> links sp = None))))
   \<and> (membership (selectedGroup s) = None \<longrightarrow>
         new_events s (handleFetchLinks opts resp s)
           = (if is_muted opts then [] else [(clock s, SetLoading True)])
               @ [(clock s, SetLoading False)]
         \<and> loading (handleFetchLinks opts resp s) = False
         \<and> items (links_value (handleFetchLinks opts resp s)) = items (links_value s)
         \<and> heap (handleFetchLinks opts resp s) = heap s
         \<and> page_links (handleFetchLinks opts resp s) = page_links s
         \<and> links_value (handleFetchLinks opts resp s)
             = (links_value s)\<lparr>page := page_after opts s\<rparr>)
   \<and> (\<forall>ls. membership (selectedGroup s) = Some ls \<longrightarrow>
         requests_of (new_events s (handleFetchLinks opts resp s))
           = [GetLinks (page_after opts s) (size_l (links_value s)) (fieldSelector ls)])
   \<and> fieldSelector [] = ''name=()''"
proof -
  have iff: "(requests_of (new_events s (handleFetchLinks opts resp s)) = [])
      = (membership (selectedGroup s) = None)"
  proof (cases "membership (selectedGroup s)")
    case None
    then show ?thesis
      by (simp add: fetch_skipped new_events_def requests_of_def)
  next
    case (Some ls)
    then show ?thesis by (simp add: fetch_requests)
  qed
  have skipped: "membership (selectedGroup s) = None \<longrightarrow>
         new_events s (handleFetchLinks opts resp s)
           = (if is_muted opts then [] else [(clock s, SetLoading True)])
               @ [(clock s, SetLoading False)]
         \<and> loading (handleFetchLinks opts resp s) = False
         \<and> items (links_value (handleFetchLinks opts resp s)) = items (links_value s)
         \<and> heap (handleFetchLinks opts resp s) = heap s
         \<and> page_links (handleFetchLinks opts resp s) = page_links s
         \<and> links_value (handleFetchLinks opts resp s)
             = (links_value s)\<lparr>page := page_after opts s\<rparr>"
    by (simp add: fetch_skipped new_events_def page_links_def)
  have issued: "\<forall>ls. membership (selectedGroup s) = Some ls \<longrightarrow>
         requests_of (new_events s (handleFetchLinks opts resp s))
           = [GetLinks (page_after opts s) (size_l (links_value s)) (fieldSelector ls)]"
    by (simp add: fetch_requests)
  have empty: "fieldSelector [] = ''name=()''"
    by (simp add: fieldSelector_def)
  from iff membership_None_iff [of "selectedGroup s"] skipped issued empty
  show ?thesis by blast
qed

theorem fetch_guard_witness:
  "membership (selectedGroup absent_links_state) = None
   \<and> new_events absent_links_state
        (handleFetchLinks no_options failed_response absent_links_state)
        = [(1, SetLoading True), (1, SetLoading False)]
   \<and> page_links (handleFetchLinks no_options failed_response absent_links_state)
        = [link_of ''b'' (Some 0), link_of ''c'' (Some 0), link_of ''a'' (Some 2)]
   \<and> membership (selectedGroup empty_links_state) = Some []
   \<and> requests_of (new_events empty_links_state
        (handleFetchLinks no_options failed_response empty_links_state))
        = [GetLinks 1 20 ''name=()'']"
proof -
  have absent: "membership (selectedGroup absent_links_state) = None"
    by code_simp
  have present: "membership (selectedGroup empty_links_state) = Some []"
    by code_simp
  have before: "page_links absent_links_state
        = [link_of ''b'' (Some 0), link_of ''c'' (Some 0), link_of ''a'' (Some 2)]"
    by code_simp
  have numbers: "clock absent_links_state = 1" "is_muted no_options = False"
    "page_after no_options empty_links_state = 1" "size_l (links_value empty_links_state) = 20"
    by code_simp+
  note skipped = fetch_guard [of absent_links_state no_options failed_response]
  note issued = fetch_guard [of empty_links_state no_options failed_response]
  from skipped absent have events: "new_events absent_links_state
        (handleFetchLinks no_options failed_response absent_links_state)
        = (if is_muted no_options then [] else [(clock absent_links_state, SetLoading True)])
               @ [(clock absent_links_state, SetLoading False)]"
    by blast
  from skipped absent have "page_links (handleFetchLinks no_options failed_response absent_links_state)
        = page_links absent_links_state"
    by blast
  with before have same: "page_links (handleFetchLinks no_options failed_response absent_links_state)
        = [link_of ''b'' (Some 0), link_of ''c'' (Some 0), link_of ''a'' (Some 2)]"
    by (simp only:)
  from issued present have "requests_of (new_events empty_links_state
        (handleFetchLinks no_options failed_response empty_links_state))
        = [GetLinks (page_after no_options empty_links_state)
             (size_l (links_value empty_links_state)) (fieldSelector [])]"
    by blast
  moreover from issued have "fieldSelector [] = ''name=()''"
    by blast
  ultimately have request: "requests_of (new_events empty_links_state
        (handleFetchLinks no_options failed_response empty_links_state))
        = [GetLinks 1 20 ''name=()'']"
    by (simp only: numbers)
  from events have events': "new_events absent_links_state
        (handleFetchLinks no_options failed_response absent_links_state)
        = [(1, SetLoading True), (1, SetLoading False)]"
    by (simp add: numbers)
  from absent present same request events' show ?thesis
    by blast
qed

section \<open>Properties of handleSelectPrevious and handleSelectNext\<close>

lemma findIndex_range: "- 1 \<le> findIndex P xs \<and> findIndex P xs < int (length xs)"
  by (induction xs) (auto simp: Let_def)

lemma findIndex_hd: "xs \<noteq> [] \<Longrightarrow> P (hd xs) \<Longrightarrow> findIndex P xs = 0"
  by (cases xs) auto

lemma findIndex_distinct:
  "distinct (map f xs) \<Longrightarrow> i < length xs \<Longrightarrow> findIndex (\<lambda>x. f x = f (xs ! i)) xs = int i"
proof (induction xs arbitrary: i)
  case Nil
  then show ?case by simp
next
  case (Cons x xs)
  show ?case
  proof (cases i)
    case 0
    then show ?thesis by simp
  next
    case (Suc j)
    with Cons.prems have j: "j < length xs" and d: "distinct (map f xs)"
      and "f x \<notin> f ` set xs"
      by auto
    then have differs: "f x \<noteq> f (xs ! j)"
      by (metis imageI nth_mem)
    from Cons.IH [OF d j] differs Suc show ?thesis
      by (simp add: Let_def)
  qed
qed

lemma currentIndex_first:
  assumes "items (links_value s) \<noteq> []"
    and "selectedLink s = Some (hd (items (links_value s)))"
  shows "currentIndex s = 0"
  using assms by (simp add: currentIndex_def findIndex_hd)

lemma currentIndex_last:
  assumes nonempty: "items (links_value s) \<noteq> []"
    and sel: "selectedLink s = Some (last (items (links_value s)))"
    and names: "distinct (map (\<lambda>l. name (metadata l)) (page_links s))"
  shows "currentIndex s = int (length (items (links_value s))) - 1"
proof -
  let ?xs = "items (links_value s)"
  let ?f = "\<lambda>a. name (metadata (heap s ! a))"
  from names have d: "distinct (map ?f ?xs)"
    by (simp add: page_links_def comp_def)
  from nonempty have i: "length ?xs - 1 < length ?xs" by simp
  from nonempty have l: "last ?xs = ?xs ! (length ?xs - 1)"
    by (rule last_conv_nth)
  from findIndex_distinct [OF d i] have "findIndex (\<lambda>x. ?f x = ?f (last ?xs)) ?xs = int (length ?xs - 1)"
    by (simp only: l)
  with sel nonempty show ?thesis
    by (simp add: currentIndex_def of_nat_diff Suc_leI)
qed

text \<open>
  Claim C7, as the code has it. Over the full page: \<open>previous\<close> from the first item clears
  the selection, and otherwise selects the item before the current one; \<open>next\<close> with no
  selection selects the first item; \<open>next\<close> from the last item leaves the selection on the
  last item (the guard \<open>currentIndex !== items.length - 1\<close>): it neither clears it nor
  wraps around to the first item.
\<close>

theorem navigation_boundaries:
  "(items (links_value s) \<noteq> [] \<and> selectedLink s = Some (hd (items (links_value s)))
      \<longrightarrow> selectedLink (handleSelectPrevious s) = None)
   \<and> (0 < currentIndex s
      \<longrightarrow> selectedLink (handleSelectPrevious s)
            = Some (items (links_value s) ! (nat (currentIndex s) - 1)))
   \<and> (selectedLink s = None \<and> items (links_value s) \<noteq> []
      \<longrightarrow> selectedLink (handleSelectNext s) = Some (hd (items (links_value s))))
   \<and> (items (links_value s) \<noteq> [] \<and> selectedLink s = Some (last (items (links_value s)))
        \<and> distinct (map (\<lambda>l. name (metadata l)) (page_links s))
      \<longrightarrow> handleSelectNext s = s)"
proof -
  have previous_first: "items (links_value s) \<noteq> [] \<and> selectedLink s = Some (hd (items (links_value s)))
      \<longrightarrow> selectedLink (handleSelectPrevious s) = None"
    by (simp add: handleSelectPrevious_def currentIndex_first)
  have previous_inner: "0 < currentIndex s
      \<longrightarrow> selectedLink (handleSelectPrevious s)
            = Some (items (links_value s) ! (nat (currentIndex s) - 1))"
  proof
    assume pos: "0 < currentIndex s"
    have "currentIndex s < int (length (items (links_value s)))"
      unfolding currentIndex_def using findIndex_range by blast
    with pos have "nat (currentIndex s - 1) < length (items (links_value s))"
      and "nat (currentIndex s - 1) = nat (currentIndex s) - 1"
      by auto
    with pos show "selectedLink (handleSelectPrevious s)
            = Some (items (links_value s) ! (nat (currentIndex s) - 1))"
      by (simp add: handleSelectPrevious_def nth_opt_def)
  qed
  have next_none: "selectedLink s = None \<and> items (links_value s) \<noteq> []
      \<longrightarrow> selectedLink (handleSelectNext s) = Some (hd (items (links_value s)))"
    by (simp add: handleSelectNext_def nth_opt_def hd_conv_nth)
  have next_last: "items (links_value s) \<noteq> [] \<and> selectedLink s = Some (last (items (links_value s)))
        \<and> distinct (map (\<lambda>l. name (metadata l)) (page_links s))
      \<longrightarrow> handleSelectNext s = s"
    by (simp add: handleSelectNext_def currentIndex_last)
  from previous_first previous_inner next_none next_last show ?thesis
    by blast
qed

theorem navigation_boundaries_witness:
  "items (links_value first_selected_state) = [0, 1, 2]
   \<and> selectedLink first_selected_state = Some 0
   \<and> selectedLink (handleSelectPrevious first_selected_state) = None
   \<and> selectedLink loaded_state = None
   \<and> selectedLink (handleSelectNext loaded_state) = Some 0
   \<and> selectedLink last_selected_state = Some 2
   \<and> distinct (map (\<lambda>l. name (metadata l)) (page_links last_selected_state))
   \<and> handleSelectNext last_selected_state = last_selected_state
   \<and> currentIndex last_selected_state = 2
   \<and> selectedLink (handleSelectPrevious last_selected_state) = Some 1"
proof -
  have page: "items (links_value first_selected_state) = [0, 1, 2]"
    "items (links_value loaded_state) = [0, 1, 2]"
    "items (links_value last_selected_state) = [0, 1, 2]"
    by code_simp+
  have selected: "selectedLink first_selected_state = Some 0" "selectedLink loaded_state = None"
    "selectedLink last_selected_state = Some 2"
    by code_simp+
  have names: "distinct (map (\<lambda>l. name (metadata l)) (page_links last_selected_state))"
    by code_simp
  have index: "currentIndex last_selected_state = 2"
    by code_simp
  from navigation_boundaries [of first_selected_state] page selected
  have a: "selectedLink (handleSelectPrevious first_selected_state) = None"
    by simp
  from navigation_boundaries [of loaded_state] page selected
  have b: "selectedLink (handleSelectNext loaded_state) = Some 0"
    by simp
  from navigation_boundaries [of last_selected_state] page selected names
  have c: "handleSelectNext last_selected_state = last_selected_state"
    by simp
  from navigation_boundaries [of last_selected_state] page index
  have d: "selectedLink (handleSelectPrevious last_selected_state) = Some 1"
    by simp
  from page selected names index a b c d show ?thesis
    by blast
qed

text \<open>
  The claim as written (\<open>next\<close> from the last item clears the selection) fails: with the
  third of three items selected, \<open>handleSelectNext\<close> keeps it selected.
\<close>

theorem next_from_last_counterexample:
  "selectedLink last_selected_state = Some (last (items (links_value last_selected_state)))
   \<and> selectedLink (handleSelectNext last_selected_state) \<noteq> None"
  by code_simp

section \<open>Properties of handleExportSelectedLinks\<close>

lemma length_filter_selected:
  assumes names: "distinct (map f xs)" and sel: "distinct sel" and sub: "set sel \<subseteq> f ` set xs"
  shows "length (filter (\<lambda>x. f x \<in> set sel) xs) = length sel"
proof -
  have "length (filter (\<lambda>x. f x \<in> set sel) xs) = length (filter (\<lambda>n. n \<in> set sel) (map f xs))"
    by (simp add: filter_map comp_def)
  also have "\<dots> = card (set (filter (\<lambda>n. n \<in> set sel) (map f xs)))"
  proof -
    from names have "distinct (filter (\<lambda>n. n \<in> set sel) (map f xs))"
      by (rule distinct_filter)
    then show ?thesis by (rule distinct_card [symmetric])
  qed
  also have "set (filter (\<lambda>n. n \<in> set sel) (map f xs)) = set sel"
    using sub by auto
  also have "card (set sel) = length sel"
    using sel by (rule distinct_card)
  finally show ?thesis .
qed

lemma exported_records_selected:
  assumes "\<forall>l. stringify l \<noteq> []"
  shows "exported_records stringify s
           = map stringify (filter (\<lambda>l. name (metadata l) \<in> set (selectedLinks s)) (page_links s))"
proof -
  have "map the (filter truthy (map (\<lambda>l. if P l then Some (stringify l) else None) ls))
         = map stringify (filter P ls)" for P and ls :: "link list"
    using assms by (induction ls) (auto simp: truthy_def)
  then show ?thesis
    by (simp add: exported_records_def)
qed

text \<open>
  Claim C6. With unique identifiers in the page and \<open>M\<close> selected identifiers, all of the
  page, the export offers one document: the \<open>M\<close> serialized records of the selected Links,
  taken from the full page in page order and joined by the document separator; unselected
  Links contribute nothing. The export does nothing exactly when the page has no item.
  (\<open>stringify\<close> never yields the empty string for an object.)
\<close>

theorem export_selected_records:
  assumes names: "distinct (map (\<lambda>l. name (metadata l)) (page_links s))"
    and selection: "distinct (selectedLinks s)"
    and present: "set (selectedLinks s) \<subseteq> (\<lambda>l. name (metadata l)) ` set (page_links s)"
    and nonempty: "\<forall>l. stringify l \<noteq> []"
  shows "(items (links_value s) \<noteq> [] \<longrightarrow>
            new_events s (handleExportSelectedLinks stringify s)
              = [(clock s, Download ''links.yaml'' ''text/yaml''
                    (join document_separator (exported_records stringify s)))])
       \<and> exported_records stringify s
            = map stringify
                (filter (\<lambda>l. name (metadata l) \<in> set (selectedLinks s)) (page_links s))
       \<and> length (exported_records stringify s) = length (selectedLinks s)
       \<and> ((handleExportSelectedLinks stringify s = s) = (items (links_value s) = []))"
proof -
  have download: "items (links_value s) \<noteq> [] \<longrightarrow>
            new_events s (handleExportSelectedLinks stringify s)
              = [(clock s, Download ''links.yaml'' ''text/yaml''
                    (join document_separator (exported_records stringify s)))]"
    by (simp add: handleExportSelectedLinks_def emit_def new_events_def)
  have recs: "exported_records stringify s
            = map stringify
                (filter (\<lambda>l. name (metadata l) \<in> set (selectedLinks s)) (page_links s))"
    using nonempty by (rule exported_records_selected)
  have count: "length (exported_records stringify s) = length (selectedLinks s)"
    unfolding recs using length_filter_selected [OF names selection present] by simp
  have noop: "(handleExportSelectedLinks stringify s = s) = (items (links_value s) = [])"
  proof (cases "items (links_value s) = []")
    case True
    then show ?thesis by (simp add: handleExportSelectedLinks_def)
  next
    case False
    then have "length (trace (handleExportSelectedLinks stringify s)) \<noteq> length (trace s)"
      by (simp add: handleExportSelectedLinks_def emit_def)
    then have "handleExportSelectedLinks stringify s \<noteq> s"
      by auto
    with False show ?thesis by simp
  qed
  from download recs count noop show ?thesis
    by blast
qed

theorem export_selected_records_witness:
  "distinct (map (\<lambda>l. name (metadata l)) (page_links selection_state))
   \<and> distinct (selectedLinks selection_state)
   \<and> set (selectedLinks selection_state)
        \<subseteq> (\<lambda>l. name (metadata l)) ` set (page_links selection_state)
   \<and> (\<forall>l. example_stringify l \<noteq> [])
   \<and> items (links_value selection_state) \<noteq> []
   \<and> exported_records example_stringify selection_state
        = [''name: b'' @ [CHR 0x0A], ''name: a'' @ [CHR 0x0A]]
   \<and> length (exported_records example_stringify selection_state) = 2
   \<and> new_events selection_state (handleExportSelectedLinks example_stringify selection_state)
        = [(1, Download ''links.yaml'' ''text/yaml''
              (''name: b'' @ [CHR 0x0A] @ ''---'' @ [CHR 0x0A] @ ''name: a'' @ [CHR 0x0A]))]
   \<and> handleExportSelectedLinks example_stringify selection_state \<noteq> selection_state"
proof -
  have names: "distinct (map (\<lambda>l. name (metadata l)) (page_links selection_state))"
    by code_simp
  have selection: "distinct (selectedLinks selection_state)"
    by code_simp
  have present: "set (selectedLinks selection_state)
        \<subseteq> (\<lambda>l. name (metadata l)) ` set (page_links selection_state)"
    by code_simp
  have nonempty: "\<forall>l. example_stringify l \<noteq> []"
    by (simp add: example_stringify_def)
  have page: "items (links_value selection_state) \<noteq> []"
    by code_simp
  have recs: "exported_records example_stringify selection_state
        = [''name: b'' @ [CHR 0x0A], ''name: a'' @ [CHR 0x0A]]"
    by code_simp
  have number: "length (selectedLinks selection_state) = 2" "clock selection_state = 1"
    by code_simp+
  have doc: "join document_separator [''name: b'' @ [CHR 0x0A], ''name: a'' @ [CHR 0x0A]]
      = ''name: b'' @ [CHR 0x0A] @ ''---'' @ [CHR 0x0A] @ ''name: a'' @ [CHR 0x0A]"
    by code_simp
  note export = export_selected_records [OF names selection present nonempty]
  from export have "length (exported_records example_stringify selection_state)
      = length (selectedLinks selection_state)"
    by blast
  then have count: "length (exported_records example_stringify selection_state) = 2"
    by (simp only: number)
  from export page have "new_events selection_state
        (handleExportSelectedLinks example_stringify selection_state)
        = [(clock selection_state, Download ''links.yaml'' ''text/yaml''
              (join document_separator (exported_records example_stringify selection_state)))]"
    by blast
  then have events: "new_events selection_state
        (handleExportSelectedLinks example_stringify selection_state)
        = [(1, Download ''links.yaml'' ''text/yaml''
              (''name: b'' @ [CHR 0x0A] @ ''---'' @ [CHR 0x0A] @ ''name: a'' @ [CHR 0x0A]))]"
    by (simp only: recs doc number)
  from export page have changed:
    "handleExportSelectedLinks example_stringify selection_state \<noteq> selection_state"
    by blast
  from names selection present nonempty page recs count events changed show ?thesis
    by blast
qed

section \<open>Properties of searchResults\<close>

lemma matches_indices:
  "set (map fst (concat (map (\<lambda>(idx, r). case sc r of None \<Rightarrow> [] | Some v \<Rightarrow> [(idx, v)])
                       (enumerate n xs)))) \<subseteq> {n ..< n + length xs}
   \<and> distinct (map fst (concat (map (\<lambda>(idx, r). case sc r of None \<Rightarrow> [] | Some v \<Rightarrow> [(idx, v)])
                       (enumerate n xs))))"
proof (induction xs arbitrary: n)
  case Nil
  show ?case by simp
next
  case (Cons x xs)
  define rest where "rest = map fst (concat (map (\<lambda>(idx, r). case sc r of None \<Rightarrow> []
      | Some v \<Rightarrow> [(idx, v)]) (enumerate (Suc n) xs)))"
  from Cons.IH [of "Suc n"] have sub: "set rest \<subseteq> {Suc n ..< Suc n + length xs}"
    and d: "distinct rest"
    unfolding rest_def by blast+
  have step: "map fst (concat (map (\<lambda>(idx, r). case sc r of None \<Rightarrow> [] | Some v \<Rightarrow> [(idx, v)])
      (enumerate n (x # xs)))) = (case sc x of None \<Rightarrow> [] | Some v \<Rightarrow> [n]) @ rest"
    unfolding rest_def by (simp split: option.splits)
  show ?case
    unfolding step using sub d by (auto split: option.splits)
qed

lemma fuse_search_items:
  "\<exists>idxs. distinct idxs \<and> (\<forall>i \<in> set idxs. i < length (records f))
      \<and> map fst (fuse_search score f kw) = map (\<lambda>i. docs f ! i) idxs"
proof -
  let ?matches = "concat (map (\<lambda>(idx, r). case score kw r of None \<Rightarrow> [] | Some v \<Rightarrow> [(idx, v)])
                       (enumerate 0 (records f)))"
  let ?idxs = "map fst (sort_key snd ?matches)"
  have "mset ?idxs = mset (map fst ?matches)"
    by simp
  then have same: "set ?idxs = set (map fst ?matches)" and d: "distinct ?idxs = distinct (map fst ?matches)"
    by (metis set_mset_mset, metis mset_eq_imp_distinct_iff)
  from matches_indices [of "score kw" 0 "records f"]
  have "set (map fst ?matches) \<subseteq> {0 ..< length (records f)}" and "distinct (map fst ?matches)"
    by simp_all
  then have "distinct ?idxs" and "\<forall>i \<in> set ?idxs. i < length (records f)"
    unfolding same d by (blast, fastforce)
  moreover have "map fst (fuse_search score f kw) = map (\<lambda>i. docs f ! i) ?idxs"
    by (simp add: fuse_search_def Let_def split_def comp_def)
  ultimately show ?thesis by blast
qed

lemma fetched_state:
  assumes "membership (selectedGroup s) = Some ls" and "outcome resp = Inr data"
  shows "\<exists>n. items (links_value (handleFetchLinks opts resp s)) = [length (heap s) ..< length (heap s) + n]
       \<and> length (heap (handleFetchLinks opts resp s)) = length (heap s) + n
       \<and> fuse (handleFetchLinks opts resp s)
           = Some \<lparr>docs = items (links_value (handleFetchLinks opts resp s)),
                   records = page_links (handleFetchLinks opts resp s)\<rparr>"
  using assms
  by (simp add: handleFetchLinks_def set_loading_def emit_def request_links_def await_def
        Let_def assign_links_def rebuild_fuse_def page_links_def split: option.splits)

lemma getter_indexed:
  assumes index: "fuse s = Some \<lparr>docs = items (links_value s), records = page_links s\<rparr>"
  shows "\<exists>idxs. distinct idxs \<and> (\<forall>i \<in> set idxs. i < length (items (links_value s)))
      \<and> cached_value (searchResults_getter score s) = map (\<lambda>i. items (links_value s) ! i) idxs"
proof (cases "keyword s = []")
  case True
  have "distinct [0 ..< length (items (links_value s))]" by simp
  moreover have "\<forall>i \<in> set [0 ..< length (items (links_value s))]. i < length (items (links_value s))"
    by simp
  moreover have "cached_value (searchResults_getter score s)
      = map (\<lambda>i. items (links_value s) ! i) [0 ..< length (items (links_value s))]"
    using True index by (simp add: searchResults_getter_def map_nth)
  ultimately show ?thesis by blast
next
  case False
  from fuse_search_items [of "\<lparr>docs = items (links_value s), records = page_links s\<rparr>" score "keyword s"]
  obtain idxs where "distinct idxs" and "\<forall>i \<in> set idxs. i < length (page_links s)"
    and "map fst (fuse_search score \<lparr>docs = items (links_value s), records = page_links s\<rparr> (keyword s))
          = map (\<lambda>i. items (links_value s) ! i) idxs"
    by auto
  with False index show ?thesis
    by (auto simp: searchResults_getter_def page_links_def)
qed

text \<open>
  What a run of the getter gives. With an empty keyword it is the full page itself, in its
  order. Run on a page that has just been loaded, with any keyword, it yields references
  into the full page: every element of the view is the object at some position of the
  page, no object occurs twice, and a write through an element of the view is the write to
  that item of the page.
\<close>

lemma fresh_view_shares_objects:
  assumes group: "membership (selectedGroup s) = Some ls"
    and ok: "outcome resp = Inr data"
  shows "(keyword u = [] \<longrightarrow> cached_value (searchResults_getter score u) = items (links_value u))
       \<and> set (cached_value (searchResults_getter score ((handleFetchLinks opts resp s)\<lparr>keyword := kw\<rparr>)))
            \<subseteq> set (items (links_value (handleFetchLinks opts resp s)))
       \<and> distinct (cached_value (searchResults_getter score ((handleFetchLinks opts resp s)\<lparr>keyword := kw\<rparr>)))
       \<and> (\<forall>a \<in> set (cached_value (searchResults_getter score
                        ((handleFetchLinks opts resp s)\<lparr>keyword := kw\<rparr>))).
            \<exists>i < length (items (links_value (handleFetchLinks opts resp s))).
              items (links_value (handleFetchLinks opts resp s)) ! i = a
              \<and> page_links (write_link a l ((handleFetchLinks opts resp s)\<lparr>keyword := kw\<rparr>)) ! i = l)"
proof -
  let ?s = "handleFetchLinks opts resp s"
  let ?k = "?s\<lparr>keyword := kw\<rparr>"
  let ?view = "cached_value (searchResults_getter score ?k)"
  from fetched_state [OF group ok, of opts] obtain n
    where page: "items (links_value ?s) = [length (heap s) ..< length (heap s) + n]"
      and heap: "length (heap ?s) = length (heap s) + n"
      and index: "fuse ?s = Some \<lparr>docs = items (links_value ?s), records = page_links ?s\<rparr>"
    by blast
  have "fuse ?k = Some \<lparr>docs = items (links_value ?k), records = page_links ?k\<rparr>"
    using index by (simp add: page_links_def)
  from getter_indexed [OF this, of score] obtain idxs
    where d: "distinct idxs" and r: "\<forall>i \<in> set idxs. i < length (items (links_value ?s))"
      and v: "?view = map (\<lambda>i. items (links_value ?s) ! i) idxs"
    by auto
  have empty: "keyword u = [] \<longrightarrow> cached_value (searchResults_getter score u) = items (links_value u)"
    by (simp add: searchResults_getter_def split: option.splits)
  have subset: "set ?view \<subseteq> set (items (links_value ?s))"
    unfolding v using r by auto
  have "distinct (items (links_value ?s))"
    unfolding page by simp
  then have "inj_on (\<lambda>i. items (links_value ?s) ! i) (set idxs)"
    using r by (simp add: inj_on_nth)
  with d have once: "distinct ?view"
    unfolding v by (simp add: distinct_map)
  have shared: "\<forall>a \<in> set ?view.
            \<exists>i < length (items (links_value ?s)).
              items (links_value ?s) ! i = a \<and> page_links (write_link a l ?k) ! i = l"
  proof
    fix a
    assume "a \<in> set ?view"
    with subset obtain i where i: "i < length (items (links_value ?s))"
      and a: "items (links_value ?s) ! i = a"
      by (metis in_set_conv_nth subsetD)
    from i a have "a < length (heap ?s)"
      unfolding page heap by auto
    with i a have "page_links (write_link a l ?k) ! i = l"
      by (simp add: page_links_def write_link_def)
    with i a show "\<exists>i < length (items (links_value ?s)).
              items (links_value ?s) ! i = a \<and> page_links (write_link a l ?k) ! i = l"
      by blast
  qed
  from empty subset once shared show ?thesis
    by blast
qed

text \<open>
  A read of \<open>searchResults.value\<close> runs the getter only when the cache is empty; a write to
  \<open>links.value\<close> empties the cache only when the last run read \<open>links.value\<close>.
\<close>

lemma read_uses_cache:
  "searchResults_cache s = Some c \<Longrightarrow> searchResults_read score s = (cached_value c, s)"
  by (simp add: searchResults_read_def)

lemma read_runs_getter:
  "searchResults_cache s = None \<Longrightarrow>
   fst (searchResults_read score s) = cached_value (searchResults_getter score s)"
  by (simp add: searchResults_read_def Let_def)

lemma keyword_view_survives_refetch:
  assumes "searchResults_cache s = Some c" and "\<not> tracks_links c"
  shows "fst (searchResults_read score (handleFetchLinks opts resp s)) = cached_value c"
proof -
  have "searchResults_cache (handleFetchLinks opts resp s) = Some c"
    using assms
    by (simp add: handleFetchLinks_def set_loading_def emit_def request_links_def await_def
          Let_def assign_links_def rebuild_fuse_def invalidate_links_def
          split: option.splits sum.splits)
  then show ?thesis
    by (simp add: searchResults_read_def)
qed

text \<open>
  Claim C3. The claim says that with a keyword the view holds objects of the full page. The
  code does not keep it so: \<open>fuse\<close> is not reactive and the getter's keyword branch does not
  read \<open>links.value\<close>, so a refetch made while a keyword is active rebuilds the index but
  leaves the cached view as it was. In the example the page a, b, c is loaded and rendered,
  the keyword x is typed (the view is the objects 0 and 2), and a muted refetch stores the
  page again as the new objects 3, 4, 5. The view read afterwards is still the old objects
  0 and 2, none of them an item of the page (a fresh run of the getter would give 3 and
  5), and a write through the view's first element leaves the page as it is.
\<close>

theorem stale_view_after_refetch:
  "items (links_value searching_state) = [0, 1, 2]
   \<and> keyword searching_state = ''x''
   \<and> fst (searchResults_read example_matching searching_state) = [0, 2]
   \<and> items (links_value refetched_state) = [3, 4, 5]
   \<and> map_option docs (fuse refetched_state) = Some [3, 4, 5]
   \<and> keyword refetched_state = ''x''
   \<and> fst (searchResults_read example_matching refetched_state) = [0, 2]
   \<and> set (fst (searchResults_read example_matching refetched_state))
        \<inter> set (items (links_value refetched_state)) = {}
   \<and> cached_value (searchResults_getter example_matching refetched_state) = [3, 5]
   \<and> page_links (write_link 0 (link_of ''b'' (Some 7)) refetched_state)
        = page_links refetched_state"
  by code_simp

section \<open>Properties of handleDelete\<close>

lemma emit_fields [simp]:
  "clock (emit e s) = clock s" "links_value (emit e s) = links_value s"
  "page_after opts (emit e s) = page_after opts s" "heap (emit e s) = heap s"
  by (simp_all add: emit_def page_after_def split: option.splits)

lemma is_muted_None [simp]: "is_muted None = False"
  by (simp add: is_muted_def)

text \<open>
  Claim C8. The confirmed delete of one Link makes the delete request and, at the same
  instant, starts the refetch: the outcome of the delete is never awaited. What the handler
  does, logs and leaves in the state is the same whether the delete is fulfilled or
  rejected; \<open>console.error\<close> is reached only when the refetch itself fails.
\<close>

theorem delete_outcome_unobserved:
  "handleDelete_onConfirm a d resp s = handleDelete_onConfirm a d' resp s
   \<and> take 2 (new_events s (handleDelete_onConfirm a d resp s))
        = [(clock s, Request (DeleteLink (name (metadata (heap s ! a))))),
           (clock s, SetLoading True)]
   \<and> (\<forall>ls. membership (selectedGroup s) = Some ls \<longrightarrow>
         take 3 (new_events s (handleDelete_onConfirm a d resp s))
           = [(clock s, Request (DeleteLink (name (metadata (heap s ! a))))),
              (clock s, SetLoading True),
              (clock s, Request (GetLinks (page (links_value s)) (size_l (links_value s))
                                   (fieldSelector ls)))])
   \<and> (ConsoleError \<in> snd ` set (new_events s (handleDelete_onConfirm a d resp s))
        \<longleftrightarrow> membership (selectedGroup s) \<noteq> None \<and> isl (outcome resp))"
proof -
  let ?s1 = "emit (Request (DeleteLink (name (metadata (heap s ! a))))) s"
  have same: "handleDelete_onConfirm a d resp s = handleDelete_onConfirm a d' resp s"
    by (simp add: handleDelete_onConfirm_def)
  have page: "page_after None s = page (links_value s)"
    by (simp add: page_after_def requested_page_def)
  have rest: "take 2 (new_events s (handleDelete_onConfirm a d resp s))
        = [(clock s, Request (DeleteLink (name (metadata (heap s ! a))))),
           (clock s, SetLoading True)]
   \<and> (\<forall>ls. membership (selectedGroup s) = Some ls \<longrightarrow>
         take 3 (new_events s (handleDelete_onConfirm a d resp s))
           = [(clock s, Request (DeleteLink (name (metadata (heap s ! a))))),
              (clock s, SetLoading True),
              (clock s, Request (GetLinks (page (links_value s)) (size_l (links_value s))
                                   (fieldSelector ls)))])
   \<and> (ConsoleError \<in> snd ` set (new_events s (handleDelete_onConfirm a d resp s))
        \<longleftrightarrow> membership (selectedGroup s) \<noteq> None \<and> isl (outcome resp))"
  proof (cases "membership (selectedGroup s)")
    case None
    then have "membership (selectedGroup ?s1) = None" by simp
    then have "trace (handleDelete_onConfirm a d resp s)
        = trace s @ [(clock s, Request (DeleteLink (name (metadata (heap s ! a))))),
                     (clock s, SetLoading True), (clock s, SetLoading False)]"
      unfolding handleDelete_onConfirm_def by (simp add: fetch_skipped) (simp add: emit_def)
    with None show ?thesis
      by (simp add: new_events_def)
  next
    case (Some ls)
    then have group: "membership (selectedGroup ?s1) = Some ls" by simp
    show ?thesis
    proof (cases "outcome resp")
      case (Inl e)
      have "trace (handleDelete_onConfirm a d resp s)
        = trace s @ [(clock s, Request (DeleteLink (name (metadata (heap s ! a))))),
                     (clock s, SetLoading True),
                     (clock s, Request (GetLinks (page (links_value s)) (size_l (links_value s))
                                   (fieldSelector ls))),
                     (max (clock s) (settle_time resp), ConsoleError),
                     (max (clock s) (settle_time resp), SetLoading False)]"
        unfolding handleDelete_onConfirm_def
        by (simp add: fetch_failed [OF group Inl] page) (simp add: emit_def)
      with Some Inl show ?thesis
        by (simp add: new_events_def)
    next
      case (Inr data)
      have "trace (handleDelete_onConfirm a d resp s)
        = trace s @ [(clock s, Request (DeleteLink (name (metadata (heap s ! a))))),
                     (clock s, SetLoading True),
                     (clock s, Request (GetLinks (page (links_value s)) (size_l (links_value s))
                                   (fieldSelector ls))),
                     (max (clock s) (settle_time resp), SetLoading False)]"
        unfolding handleDelete_onConfirm_def
        by (simp add: fetch_trace_success [OF group Inr] page) (simp add: emit_def)
      with Some Inr show ?thesis
        by (simp add: new_events_def)
    qed
  qed
  from same rest show ?thesis
    by (rule conjI)
qed

theorem delete_outcome_unobserved_witness:
  "membership (selectedGroup loaded_state) = Some [''a'', ''b'', ''c'']
   \<and> handleDelete_onConfirm 0 delete_failure refetch_promise loaded_state
       = handleDelete_onConfirm 0 delete_success refetch_promise loaded_state
   \<and> new_events loaded_state
        (handleDelete_onConfirm 0 delete_failure refetch_promise loaded_state)
       = [(1, Request (DeleteLink ''b'')), (1, SetLoading True),
          (1, Request (GetLinks 1 20 ''name=(a,b,c)'')), (3, SetLoading False)]
   \<and> settle_time delete_failure = 9"
proof -
  have group: "membership (selectedGroup loaded_state) = Some [''a'', ''b'', ''c'']"
    by code_simp
  have events: "new_events loaded_state
        (handleDelete_onConfirm 0 delete_failure refetch_promise loaded_state)
       = [(1, Request (DeleteLink ''b'')), (1, SetLoading True),
          (1, Request (GetLinks 1 20 ''name=(a,b,c)'')), (3, SetLoading False)]"
    by code_simp
  have late: "settle_time delete_failure = 9"
    by code_simp
  from delete_outcome_unobserved [of 0 delete_failure refetch_promise loaded_state delete_success]
  have "handleDelete_onConfirm 0 delete_failure refetch_promise loaded_state
       = handleDelete_onConfirm 0 delete_success refetch_promise loaded_state"
    by (rule conjunct1)
  with group events late show ?thesis
    by blast
qed

section \<open>Properties of onLinkSaved\<close>

lemma fetch_extends_trace:
  "trace (handleFetchLinks opts resp s) = trace s @ new_events s (handleFetchLinks opts resp s)"
proof (cases "membership (selectedGroup s)")
  case None
  then show ?thesis by (simp add: fetch_skipped new_events_def)
next
  case (Some ls)
  then show ?thesis
    by (cases "outcome resp") (simp_all add: fetch_failed fetch_trace_success new_events_def)
qed

lemma fetch_requests_cases:
  "requests_of (new_events s (handleFetchLinks opts resp s))
     = (case membership (selectedGroup s) of
          None \<Rightarrow> []
        | Some ls \<Rightarrow> [GetLinks (page_after opts s) (size_l (links_value s)) (fieldSelector ls)])"
proof (cases "membership (selectedGroup s)")
  case None
  then show ?thesis by (simp add: fetch_skipped new_events_def requests_of_def)
next
  case (Some ls)
  then show ?thesis by (simp add: fetch_requests)
qed

lemma fetch_starts_with_loading:
  "take 1 (new_events s (handleFetchLinks None resp s)) = [(clock s, SetLoading True)]"
proof (cases "membership (selectedGroup s)")
  case None
  then show ?thesis by (simp add: fetch_skipped new_events_def)
next
  case (Some ls)
  then show ?thesis
    by (cases "outcome resp") (simp_all add: fetch_failed fetch_trace_success new_events_def)
qed

lemma new_events_after:
  assumes "trace s1 = trace s @ xs"
  shows "new_events s (handleFetchLinks opts resp s1)
           = xs @ new_events s1 (handleFetchLinks opts resp s1)"
proof -
  define ys where "ys = new_events s1 (handleFetchLinks opts resp s1)"
  have "trace (handleFetchLinks opts resp s1) = trace s @ xs @ ys"
    using fetch_extends_trace [of opts resp s1] assms unfolding ys_def by simp
  then have "new_events s (handleFetchLinks opts resp s1) = xs @ ys"
    by (simp add: new_events_def)
  then show ?thesis by (simp only: ys_def)
qed

lemma requests_of_append [simp]: "requests_of (xs @ ys) = requests_of xs @ requests_of ys"
  by (simp add: requests_of_def)

text \<open>
  Claim C4. A new Link is saved while a group \<open>G\<close> with a membership is selected, and the
  write of the group succeeds: the request is a PUT of the whole group, a copy of \<open>G\<close> whose
  membership is that of \<open>G\<close> with the identifier of the new Link appended; \<open>selectedGroup\<close>
  itself is not written. Then the group list is fetched again and, when that call returns,
  \<open>handleFetchLinks()\<close> runs. The PUT is the only write of a group.
\<close>

theorem link_saved_appends_to_group:
  assumes selected: "selectedGroup s = Some g"
    and has_spec: "group_spec g = Some sp"
    and members: "links sp = Some ls"
    and written: "outcome put_result = Inr ()"
    and refetched: "outcome groups_result = Inr g'"
  shows "\<exists>s1. trace s1 = trace s
            @ [(clock s, Request (PutLinkGroup (name (group_metadata g))
                  (g\<lparr>group_spec := Some (sp\<lparr>links := Some (ls @ [name (metadata l)])\<rparr>)\<rparr>))),
               (max (clock s) (settle_time put_result), FetchGroups)]
         \<and> clock s1 = max (max (clock s) (settle_time put_result)) (settle_time groups_result)
         \<and> selectedGroup s1 = g'
         \<and> onLinkSaved l put_result groups_result resp s = Inr (handleFetchLinks None resp s1)
         \<and> take 3 (new_events s (handleFetchLinks None resp s1))
             = [(clock s, Request (PutLinkGroup (name (group_metadata g))
                  (g\<lparr>group_spec := Some (sp\<lparr>links := Some (ls @ [name (metadata l)])\<rparr>)\<rparr>))),
                (max (clock s) (settle_time put_result), FetchGroups),
                (clock s1, SetLoading True)]
         \<and> filter is_put_group (requests_of (new_events s (handleFetchLinks None resp s1)))
             = [PutLinkGroup (name (group_metadata g))
                  (g\<lparr>group_spec := Some (sp\<lparr>links := Some (ls @ [name (metadata l)])\<rparr>)\<rparr>)]"
proof -
  let ?body = "g\<lparr>group_spec := Some (sp\<lparr>links := Some (ls @ [name (metadata l)])\<rparr>)\<rparr>"
  let ?put = "(clock s, Request (PutLinkGroup (name (group_metadata g)) ?body))"
  let ?t1 = "max (clock s) (settle_time put_result)"
  let ?s1 = "s\<lparr>trace := trace s @ [?put, (?t1, FetchGroups)],
               clock := max ?t1 (settle_time groups_result), selectedGroup := g'\<rparr>"
  have tr: "trace ?s1 = trace s @ [?put, (?t1, FetchGroups)]" by simp
  have result: "onLinkSaved l put_result groups_result resp s = Inr (handleFetchLinks None resp ?s1)"
    using assms by (simp add: onLinkSaved_def put_group_def await_def emit_def Let_def)
  have events: "new_events s (handleFetchLinks None resp ?s1)
      = [?put, (?t1, FetchGroups)] @ new_events ?s1 (handleFetchLinks None resp ?s1)"
    using tr by (rule new_events_after)
  have first3: "take 3 (new_events s (handleFetchLinks None resp ?s1))
      = [?put, (?t1, FetchGroups), (clock ?s1, SetLoading True)]"
    using fetch_starts_with_loading [of ?s1 resp] unfolding events by simp
  have writes: "filter is_put_group (requests_of (new_events s (handleFetchLinks None resp ?s1)))
      = [PutLinkGroup (name (group_metadata g)) ?body]"
    unfolding events requests_of_append fetch_requests_cases
    by (simp add: requests_of_def is_put_group_def split: option.splits)
  from tr result first3 writes show ?thesis
    by (intro exI [of _ ?s1]) simp
qed

theorem link_saved_appends_to_group_witness:
  "selectedGroup loaded_state = Some example_group
   \<and> group_spec example_group
        = Some \<lparr>group_displayName = ''g'', group_priority = Some 0,
                 links = Some [''a'', ''b'', ''c'']\<rparr>
   \<and> outcome write_success = Inr ()
   \<and> outcome groups_promise = Inr (Some updated_group)
   \<and> \<not> isl (onLinkSaved (link_of ''d'' None) write_success groups_promise late_promise
              loaded_state)
   \<and> filter is_put_group (requests_of (new_events loaded_state
         (projr (onLinkSaved (link_of ''d'' None) write_success groups_promise late_promise
                   loaded_state))))
        = [PutLinkGroup ''g'' (group_of ''g'' (Some [''a'', ''b'', ''c'', ''d'']))]
   \<and> new_events loaded_state
         (projr (onLinkSaved (link_of ''d'' None) write_success groups_promise late_promise
                   loaded_state))
        = [(1, Request (PutLinkGroup ''g'' (group_of ''g'' (Some [''a'', ''b'', ''c'', ''d''])))),
           (2, FetchGroups), (3, SetLoading True),
           (3, Request (GetLinks 1 20 ''name=(a,b,c,d)'')), (5, SetLoading False)]"
proof -
  let ?sp = "\<lparr>group_displayName = ''g'', group_priority = Some 0,
                 links = Some [''a'', ''b'', ''c'']\<rparr>"
  have selected: "selectedGroup loaded_state = Some example_group"
    by code_simp
  have has_spec: "group_spec example_group = Some ?sp"
    by code_simp
  have members: "links ?sp = Some [''a'', ''b'', ''c'']"
    by simp
  have written: "outcome write_success = Inr ()"
    by code_simp
  have refetched: "outcome groups_promise = Inr (Some updated_group)"
    by code_simp
  have body: "PutLinkGroup (name (group_metadata example_group))
        (example_group\<lparr>group_spec := Some (?sp\<lparr>links :=
            Some ([''a'', ''b'', ''c''] @ [name (metadata (link_of ''d'' None))])\<rparr>)\<rparr>)
      = PutLinkGroup ''g'' (group_of ''g'' (Some [''a'', ''b'', ''c'', ''d'']))"
    by code_simp
  have events: "new_events loaded_state
         (projr (onLinkSaved (link_of ''d'' None) write_success groups_promise late_promise
                   loaded_state))
        = [(1, Request (PutLinkGroup ''g'' (group_of ''g'' (Some [''a'', ''b'', ''c'', ''d''])))),
           (2, FetchGroups), (3, SetLoading True),
           (3, Request (GetLinks 1 20 ''name=(a,b,c,d)'')), (5, SetLoading False)]"
    by code_simp
  from link_saved_appends_to_group [OF selected has_spec members written refetched,
      of "link_of ''d'' None" late_promise]
  obtain s1 where
    result: "onLinkSaved (link_of ''d'' None) write_success groups_promise late_promise loaded_state
        = Inr (handleFetchLinks None late_promise s1)"
    and writes: "filter is_put_group
        (requests_of (new_events loaded_state (handleFetchLinks None late_promise s1)))
      = [PutLinkGroup (name (group_metadata example_group))
        (example_group\<lparr>group_spec := Some (?sp\<lparr>links :=
            Some ([''a'', ''b'', ''c''] @ [name (metadata (link_of ''d'' None))])\<rparr>)\<rparr>)]"
    by blast
  from result have ok: "\<not> isl (onLinkSaved (link_of ''d'' None) write_success groups_promise
      late_promise loaded_state)"
    by simp
  from result have "projr (onLinkSaved (link_of ''d'' None) write_success groups_promise
      late_promise loaded_state) = handleFetchLinks None late_promise s1"
    by simp
  with writes body have put: "filter is_put_group (requests_of (new_events loaded_state
         (projr (onLinkSaved (link_of ''d'' None) write_success groups_promise late_promise
                   loaded_state))))
        = [PutLinkGroup ''g'' (group_of ''g'' (Some [''a'', ''b'', ''c'', ''d'']))]"
    by (simp only:)
  from selected has_spec written refetched ok put events show ?thesis
    by blast
qed

text \<open>
  The paths that \<open>onLinkSaved\<close> does not guard: a selected group without a membership makes
  \<open>push\<close> throw before any request, and a rejected write is thrown by \<open>await\<close>; in both
  cases the handler ends with the error and fetches nothing.
\<close>

lemma link_saved_without_membership:
  "selectedGroup s = Some g \<Longrightarrow> membership (Some g) = None \<Longrightarrow>
   onLinkSaved l put_result groups_result resp s = Inl TypeError"
  by (simp add: onLinkSaved_def put_group_def membership_def split: option.splits)

lemma link_saved_write_rejected:
  "membership (selectedGroup s) = Some ls \<Longrightarrow> outcome put_result = Inl e \<Longrightarrow>
   onLinkSaved l put_result groups_result resp s = Inl e"
  by (auto simp: onLinkSaved_def put_group_def membership_def await_def Let_def
        split: option.splits)

text \<open>
  Claim C10. A new Link is saved while no group is selected, and the refetch of the group
  list returns: no group is written (the handler makes no write request at all), the group
  list is fetched again, \<open>handleFetchLinks()\<close> runs after it, and \<open>onLinkSaved\<close> ends without
  an error.
\<close>

theorem link_saved_without_group:
  assumes none: "selectedGroup s = None"
    and refetched: "outcome groups_result = Inr g'"
  shows "\<exists>s1. trace s1 = trace s @ [(clock s, FetchGroups)]
         \<and> clock s1 = max (clock s) (settle_time groups_result)
         \<and> selectedGroup s1 = g'
         \<and> onLinkSaved l put_result groups_result resp s = Inr (handleFetchLinks None resp s1)
         \<and> take 2 (new_events s (handleFetchLinks None resp s1))
             = [(clock s, FetchGroups), (clock s1, SetLoading True)]
         \<and> requests_of (new_events s (handleFetchLinks None resp s1))
             = (case membership g' of
                  None \<Rightarrow> []
                | Some ms \<Rightarrow> [GetLinks (page (links_value s)) (size_l (links_value s))
                              (fieldSelector ms)])
         \<and> filter is_put_group (requests_of (new_events s (handleFetchLinks None resp s1))) = []"
proof -
  let ?s1 = "s\<lparr>trace := trace s @ [(clock s, FetchGroups)],
               clock := max (clock s) (settle_time groups_result), selectedGroup := g'\<rparr>"
  have tr: "trace ?s1 = trace s @ [(clock s, FetchGroups)]" by simp
  have result: "onLinkSaved l put_result groups_result resp s = Inr (handleFetchLinks None resp ?s1)"
    using assms by (simp add: onLinkSaved_def put_group_def await_def emit_def Let_def)
  have events: "new_events s (handleFetchLinks None resp ?s1)
      = [(clock s, FetchGroups)] @ new_events ?s1 (handleFetchLinks None resp ?s1)"
    using tr by (rule new_events_after)
  have first2: "take 2 (new_events s (handleFetchLinks None resp ?s1))
      = [(clock s, FetchGroups), (clock ?s1, SetLoading True)]"
    using fetch_starts_with_loading [of ?s1 resp] unfolding events by simp
  have reqs: "requests_of (new_events s (handleFetchLinks None resp ?s1))
      = (case membership g' of
                  None \<Rightarrow> []
                | Some ms \<Rightarrow> [GetLinks (page (links_value s)) (size_l (links_value s))
                              (fieldSelector ms)])"
    unfolding events requests_of_append fetch_requests_cases
    by (simp add: requests_of_def page_after_def requested_page_def split: option.splits)
  then have writes: "filter is_put_group (requests_of (new_events s (handleFetchLinks None resp ?s1))) = []"
    by (simp add: is_put_group_def split: option.splits)
  from tr result first2 reqs writes show ?thesis
    by (intro exI [of _ ?s1]) simp
qed

theorem link_saved_without_group_witness:
  "selectedGroup initial_state = None
   \<and> outcome no_group_promise = Inr None
   \<and> \<not> isl (onLinkSaved (link_of ''d'' None) write_success no_group_promise late_promise
              initial_state)
   \<and> requests_of (new_events initial_state
         (projr (onLinkSaved (link_of ''d'' None) write_success no_group_promise late_promise
                   initial_state))) = []
   \<and> new_events initial_state
         (projr (onLinkSaved (link_of ''d'' None) write_success no_group_promise late_promise
                   initial_state))
        = [(0, FetchGroups), (3, SetLoading True), (3, SetLoading False)]"
proof -
  have none: "selectedGroup initial_state = None"
    by code_simp
  have refetched: "outcome no_group_promise = Inr None"
    by code_simp
  have events: "new_events initial_state
         (projr (onLinkSaved (link_of ''d'' None) write_success no_group_promise late_promise
                   initial_state))
        = [(0, FetchGroups), (3, SetLoading True), (3, SetLoading False)]"
    by code_simp
  from link_saved_without_group [OF none refetched, of "link_of ''d'' None" write_success
      late_promise]
  obtain s1 where
    result: "onLinkSaved (link_of ''d'' None) write_success no_group_promise late_promise
        initial_state = Inr (handleFetchLinks None late_promise s1)"
    and reqs: "requests_of (new_events initial_state (handleFetchLinks None late_promise s1))
      = (case membership None of
                  None \<Rightarrow> []
                | Some ms \<Rightarrow> [GetLinks (page (links_value initial_state))
                              (size_l (links_value initial_state)) (fieldSelector ms)])"
    by blast
  from result have ok: "\<not> isl (onLinkSaved (link_of ''d'' None) write_success no_group_promise
      late_promise initial_state)"
    by simp
  from result have "projr (onLinkSaved (link_of ''d'' None) write_success no_group_promise
      late_promise initial_state) = handleFetchLinks None late_promise s1"
    by simp
  with reqs have quiet: "requests_of (new_events initial_state
         (projr (onLinkSaved (link_of ''d'' None) write_success no_group_promise late_promise
                   initial_state))) = []"
    by (simp add: membership_def)
  from none refetched ok quiet events show ?thesis
    by blast
qed

section \<open>Properties of handleSaveInBatch\<close>

lemma put_each_frame [simp]:
  "clock (put_each i as s) = clock s"
  "links_value (put_each i as s) = links_value s"
  "selectedGroup (put_each i as s) = selectedGroup s"
  "length (heap (put_each i as s)) = length (heap s)"
  by (induction as arbitrary: i s) (simp_all add: Let_def emit_def)

lemma put_each_other:
  "a \<notin> set as \<Longrightarrow> heap (put_each i as s) ! a = heap s ! a"
  by (induction as arbitrary: i s) (auto simp: Let_def emit_def)

lemma put_each_heap:
  assumes "distinct as" and "k < length as" and "as ! k < length (heap s)"
  shows "heap (put_each i as s) ! (as ! k) = with_priority (int (i + k)) (heap s ! (as ! k))"
  using assms
proof (induction as arbitrary: i k s)
  case Nil
  then show ?case by simp
next
  case (Cons a as)
  show ?case
  proof (cases k)
    case 0
    with Cons.prems show ?thesis
      by (simp add: Let_def put_each_other emit_def)
  next
    case (Suc j)
    with Cons.prems have j: "j < length as" and d: "distinct as" and ne: "as ! j \<noteq> a"
      and v: "as ! j < length (heap s)"
      by auto
    let ?s1 = "emit (Request (PutLink (name (metadata (with_priority (int i) (heap s ! a))))
                 (with_priority (int i) (heap s ! a))))
                 (s\<lparr>heap := (heap s)[a := with_priority (int i) (heap s ! a)]\<rparr>)"
    from v have "as ! j < length (heap ?s1)" by simp
    from Cons.IH [OF d j this, of "Suc i"] ne Suc show ?thesis
      by (simp add: Let_def)
  qed
qed

lemma name_with_priority [simp]: "name (metadata (with_priority i l)) = name (metadata l)"
  by (simp add: with_priority_def split: option.splits)

lemma put_each_trace:
  assumes "distinct as"
  shows "trace (put_each i as s)
           = trace s @ map (\<lambda>p. (clock s, Request (put_request s p))) (enumerate i as)"
  using assms
proof (induction as arbitrary: i s)
  case Nil
  then show ?case by simp
next
  case (Cons a as)
  let ?l = "with_priority (int i) (heap s ! a)"
  let ?s1 = "emit (Request (PutLink (name (metadata ?l)) ?l)) (s\<lparr>heap := (heap s)[a := ?l]\<rparr>)"
  from Cons.prems have d: "distinct as" and fresh: "a \<notin> set as" by auto
  have same: "put_request ?s1 p = put_request s p" if "p \<in> set (enumerate (Suc i) as)" for p
  proof -
    from that have "snd p \<in> set as"
      by (metis enumerate_eq_zip prod.collapse set_zip_rightD)
    with fresh have "snd p \<noteq> a" by auto
    then show ?thesis
      by (cases p) (simp add: put_request_def)
  qed
  have "trace (put_each i (a # as) s) = trace (put_each (Suc i) as ?s1)"
    by (simp add: Let_def)
  also have "\<dots> = trace ?s1 @ map (\<lambda>p. (clock ?s1, Request (put_request ?s1 p))) (enumerate (Suc i) as)"
    using d by (rule Cons.IH)
  also have "map (\<lambda>p. (clock ?s1, Request (put_request ?s1 p))) (enumerate (Suc i) as)
      = map (\<lambda>p. (clock s, Request (put_request s p))) (enumerate (Suc i) as)"
    using same by simp
  also have "trace ?s1 = trace s @ [(clock s, Request (put_request s (i, a)))]"
    by (simp add: emit_def put_request_def)
  finally show ?case by simp
qed

lemma earliest_least:
  "earliest p qs \<in> set (p # qs) \<and> (\<forall>q \<in> set (p # qs). settle_time (earliest p qs) \<le> settle_time q)"
proof (induction qs arbitrary: p)
  case Nil
  show ?case by simp
next
  case (Cons q qs)
  from Cons.IH [of "if settle_time q < settle_time p then q else p"] show ?case
    by (auto split: if_splits)
qed

lemma foldr_max_upper: "x \<in> set xs \<Longrightarrow> x \<le> foldr max xs (0::nat)"
  by (induction xs) auto

lemma promise_all_fulfilled:
  assumes "\<forall>p \<in> set ps. \<not> isl (outcome p)"
  shows "\<not> isl (outcome (promise_all ps))
       \<and> (\<forall>p \<in> set ps. settle_time p \<le> settle_time (promise_all ps))"
proof -
  from assms have none: "filter (\<lambda>p. isl (outcome p)) ps = []"
    by (simp add: filter_empty_conv)
  then show ?thesis
    by (simp add: promise_all_def foldr_max_upper)
qed

lemma promise_all_rejected:
  assumes "\<exists>p \<in> set ps. isl (outcome p)"
  shows "isl (outcome (promise_all ps))
       \<and> (\<exists>p \<in> set ps. isl (outcome p) \<and> settle_time (promise_all ps) = settle_time p)
       \<and> (\<forall>p \<in> set ps. isl (outcome p) \<longrightarrow> settle_time (promise_all ps) \<le> settle_time p)"
proof -
  from assms obtain r rs where some: "filter (\<lambda>p. isl (outcome p)) ps = r # rs"
    by (cases "filter (\<lambda>p. isl (outcome p)) ps") (auto simp: filter_empty_conv)
  then have members: "set (r # rs) = {p \<in> set ps. isl (outcome p)}"
    by (metis set_filter)
  from earliest_least [of r rs] have first: "earliest r rs \<in> set (r # rs)"
    and least: "\<forall>q \<in> set (r # rs). settle_time (earliest r rs) \<le> settle_time q"
    by blast+
  have time: "settle_time (promise_all ps) = settle_time (earliest r rs)"
    and out: "isl (outcome (promise_all ps))"
    using some by (simp_all add: promise_all_def)
  from first least show ?thesis
    unfolding members time using out by auto
qed

lemma save_priorities_frame [simp]:
  "links_value (save_priorities put_result s) = links_value s"
  "selectedGroup (save_priorities put_result s) = selectedGroup s"
  "heap (save_priorities put_result s) = heap (put_each 0 (items (links_value s)) s)"
  "clock (save_priorities put_result s)
     = max (clock s) (settle_time (promise_all
         (map put_result [0 ..< length (items (links_value s))])))"
  by (simp_all add: save_priorities_def await_def emit_def Let_def split: sum.splits)

lemma save_priorities_trace:
  assumes "distinct (items (links_value s))"
  shows "trace (save_priorities put_result s)
     = trace s
       @ map (\<lambda>p. (clock s, Request (put_request s p))) (enumerate 0 (items (links_value s)))
       @ (if isl (outcome (promise_all (map put_result [0 ..< length (items (links_value s))])))
          then [(clock (save_priorities put_result s), ConsoleError)] else [])"
  using put_each_trace [OF assms, of 0 s]
  by (simp add: save_priorities_def await_def emit_def Let_def split: sum.splits)

lemma fetch_keeps_objects:
  "a < length (heap s) \<Longrightarrow> heap (handleFetchLinks opts resp s) ! a = heap s ! a"
  by (simp add: handleFetchLinks_def set_loading_def emit_def request_links_def await_def
        Let_def assign_links_def rebuild_fuse_def nth_append split: option.splits sum.splits)

lemma persist_untouched:
  "\<forall>b. PutLink n b \<notin> set reqs \<Longrightarrow> persist reqs store n = store n"
proof (induction reqs arbitrary: store)
  case Nil
  show ?case by (simp add: persist_def)
next
  case (Cons r reqs)
  from Cons.prems have "replace_link r store n = store n"
    by (cases r) (auto simp: replace_link_def)
  moreover from Cons.prems have "persist reqs (replace_link r store) n = replace_link r store n"
    by (intro Cons.IH) simp
  ultimately show ?case by (simp add: persist_def)
qed

lemma persist_lookup:
  assumes "\<forall>b'. PutLink n b' \<in> set reqs \<longrightarrow> b' = b" and "PutLink n b \<in> set reqs"
  shows "persist reqs store n = Some b"
  using assms
proof (induction reqs arbitrary: store)
  case Nil
  then show ?case by simp
next
  case (Cons r reqs)
  from Cons.prems(1) have unique: "\<forall>b'. PutLink n b' \<in> set reqs \<longrightarrow> b' = b"
    by simp
  show ?case
  proof (cases "PutLink n b \<in> set reqs")
    case True
    from Cons.IH [OF unique True, of "replace_link r store"] show ?thesis
      by (simp add: persist_def)
  next
    case False
    with Cons.prems(2) have r: "r = PutLink n b"
      by simp
    from unique False have none: "\<forall>b'. PutLink n b' \<notin> set reqs"
      by blast
    from persist_untouched [OF none, of "replace_link r store"]
    have "persist reqs (replace_link r store) n = Some b"
      unfolding r by (simp add: replace_link_def)
    then show ?thesis
      by (simp add: persist_def)
  qed
qed

lemma enumerate_positions:
  "enumerate 0 xs = map (\<lambda>k. (k, xs ! k)) [0 ..< length xs]"
  by (rule nth_equalityI) (simp_all add: nth_enumerate_eq)

lemma puts_of_page:
  "(PutLink n b \<in> set (map (put_request s) (enumerate 0 (items (links_value s)))))
     = (\<exists>k < length (items (links_value s)).
          n = name (metadata (heap s ! (items (links_value s) ! k)))
          \<and> b = with_priority (int k) (heap s ! (items (links_value s) ! k)))"
  unfolding enumerate_positions by (auto simp: put_request_def)

lemma persisted_positions:
  assumes names: "distinct (map (\<lambda>l. name (metadata l)) (page_links s))"
    and arrival: "mset reqs = mset (map (put_request s) (enumerate 0 (items (links_value s))))"
    and k: "k < length (items (links_value s))"
  shows "persist reqs store (name (metadata (heap s ! (items (links_value s) ! k))))
           = Some (with_priority (int k) (heap s ! (items (links_value s) ! k)))"
proof -
  let ?xs = "items (links_value s)"
  let ?f = "\<lambda>a. name (metadata (heap s ! a))"
  from names have d: "distinct (map ?f ?xs)"
    by (simp add: page_links_def comp_def)
  from arrival have same: "set reqs = set (map (put_request s) (enumerate 0 ?xs))"
    by (rule mset_eq_setD)
  have unique: "\<forall>b'. PutLink (?f (?xs ! k)) b' \<in> set reqs
      \<longrightarrow> b' = with_priority (int k) (heap s ! (?xs ! k))"
  proof (intro allI impI)
    fix b'
    assume "PutLink (?f (?xs ! k)) b' \<in> set reqs"
    then obtain j where j: "j < length ?xs" and n: "?f (?xs ! k) = ?f (?xs ! j)"
      and b': "b' = with_priority (int j) (heap s ! (?xs ! j))"
      unfolding same puts_of_page by blast
    from n j k have "map ?f ?xs ! k = map ?f ?xs ! j" by simp
    with d j k have "k = j"
      by (metis length_map nth_eq_iff_index_eq)
    with b' show "b' = with_priority (int k) (heap s ! (?xs ! k))" by simp
  qed
  have present: "PutLink (?f (?xs ! k)) (with_priority (int k) (heap s ! (?xs ! k))) \<in> set reqs"
    unfolding same puts_of_page using k by blast
  from unique present show ?thesis
    by (rule persist_lookup)
qed

lemma priority_with_priority:
  "spec l \<noteq> None \<Longrightarrow> map_option priority (spec (with_priority i l)) = Some (Some i)"
  by (auto simp: with_priority_def)

lemma fetch_request_event:
  assumes "membership (selectedGroup s) = Some ls"
  shows "(clock s, Request (GetLinks (page_after opts s) (size_l (links_value s)) (fieldSelector ls)))
           \<in> set (new_events s (handleFetchLinks opts resp s))"
  using assms
  by (cases "outcome resp") (simp_all add: fetch_failed fetch_trace_success new_events_def)

lemma fetch_muted_no_loading:
  assumes "is_muted opts"
  shows "(t, SetLoading True) \<notin> set (new_events s (handleFetchLinks opts resp s))"
proof (cases "membership (selectedGroup s)")
  case None
  with assms show ?thesis by (simp add: fetch_skipped new_events_def)
next
  case (Some ls)
  with assms show ?thesis
    by (cases "outcome resp") (simp_all add: fetch_failed fetch_trace_success new_events_def)
qed

lemma fetch_events_later:
  assumes "(t, e) \<in> set (new_events s (handleFetchLinks opts resp s))"
  shows "clock s \<le> t"
proof (cases "membership (selectedGroup s)")
  case None
  with assms show ?thesis
    by (auto simp: fetch_skipped new_events_def split: if_splits)
next
  case (Some ls)
  with assms show ?thesis
    by (cases "outcome resp")
       (auto simp: fetch_failed fetch_trace_success new_events_def split: if_splits)
qed

lemma muted_options [simp]:
  "is_muted (Some \<lparr>mute = Some True, page_option = None\<rparr>)"
  "page_after (Some \<lparr>mute = Some True, page_option = None\<rparr>) s = page (links_value s)"
  by (simp_all add: is_muted_def page_after_def requested_page_def)

lemma requests_of_map_request [simp]:
  "requests_of (map (\<lambda>p. (c, Request (f p))) xs) = map f xs"
  by (induction xs) (simp_all add: requests_of_def)

lemma is_put_link_put_request [simp]: "is_put_link (put_request s p)"
  by (cases p) (simp add: put_request_def is_put_link_def)

lemma requests_of_simps [simp]:
  "requests_of [] = []"
  "requests_of ((t, Request r) # evs) = r # requests_of evs"
  "requests_of ((t, ConsoleError) # evs) = requests_of evs"
  "requests_of ((t, SetLoading b) # evs) = requests_of evs"
  "requests_of ((t, FetchGroups) # evs) = requests_of evs"
  by (simp_all add: requests_of_def)

lemma filter_put_requests [simp]:
  "filter is_put_link (map (put_request s) xs) = map (put_request s) xs"
  by (induction xs) simp_all

lemma save_events:
  assumes "distinct (items (links_value s))"
  shows "new_events s (handleSaveInBatch put_result resp s)
     = map (\<lambda>p. (clock s, Request (put_request s p))) (enumerate 0 (items (links_value s)))
       @ (if isl (outcome (promise_all (map put_result [0 ..< length (items (links_value s))])))
          then [(clock (save_priorities put_result s), ConsoleError)] else [])
       @ new_events (save_priorities put_result s) (handleSaveInBatch put_result resp s)"
  unfolding handleSaveInBatch_def
  using new_events_after [OF save_priorities_trace [OF assms, of put_result]]
  by simp

lemma save_requests:
  assumes "distinct (items (links_value s))"
  shows "requests_of (new_events s (handleSaveInBatch put_result resp s))
     = map (put_request s) (enumerate 0 (items (links_value s)))
       @ (case membership (selectedGroup s) of
            None \<Rightarrow> []
          | Some ls \<Rightarrow> [GetLinks (page (links_value s)) (size_l (links_value s))
                         (fieldSelector ls)])"
proof -
  have "requests_of (new_events (save_priorities put_result s) (handleSaveInBatch put_result resp s))
      = (case membership (selectedGroup s) of
            None \<Rightarrow> []
          | Some ls \<Rightarrow> [GetLinks (page (links_value s)) (size_l (links_value s))
                         (fieldSelector ls)])"
    unfolding handleSaveInBatch_def fetch_requests_cases by (simp split: option.splits)
  then show ?thesis
    unfolding save_events [OF assms] requests_of_append
    by simp
qed

lemma save_put_requests:
  assumes "distinct (items (links_value s))"
  shows "filter is_put_link (requests_of (new_events s (handleSaveInBatch put_result resp s)))
     = map (put_request s) (enumerate 0 (items (links_value s)))"
  unfolding save_requests [OF assms]
  by (simp add: is_put_link_def split: option.splits)

lemma save_heap:
  assumes "distinct (items (links_value s))"
    and "k < length (items (links_value s))"
    and "items (links_value s) ! k < length (heap s)"
  shows "heap (handleSaveInBatch put_result resp s) ! (items (links_value s) ! k)
           = with_priority (int k) (heap s ! (items (links_value s) ! k))"
proof -
  have "heap (handleSaveInBatch put_result resp s) ! (items (links_value s) ! k)
      = heap (save_priorities put_result s) ! (items (links_value s) ! k)"
    unfolding handleSaveInBatch_def using assms(3) by (intro fetch_keeps_objects) simp
  also have "\<dots> = with_priority (int (0 + k)) (heap s ! (items (links_value s) ! k))"
    using assms by (simp only: save_priorities_frame put_each_heap)
  finally show ?thesis by simp
qed

lemma save_wait_fulfilled:
  assumes "\<forall>k < length (items (links_value s)). \<not> isl (outcome (put_result k))"
  shows "\<not> isl (outcome (promise_all (map put_result [0 ..< length (items (links_value s))])))
       \<and> (\<forall>k < length (items (links_value s)).
             settle_time (put_result k) \<le> clock (save_priorities put_result s))"
proof -
  let ?ps = "map put_result [0 ..< length (items (links_value s))]"
  from assms have "\<forall>p \<in> set ?ps. \<not> isl (outcome p)" by auto
  from promise_all_fulfilled [OF this]
  have ok: "\<not> isl (outcome (promise_all ?ps))"
    and le: "\<forall>p \<in> set ?ps. settle_time p \<le> settle_time (promise_all ?ps)"
    by blast+
  have "settle_time (put_result k) \<le> clock (save_priorities put_result s)"
    if "k < length (items (links_value s))" for k
  proof -
    from that have "put_result k \<in> set ?ps" by simp
    with le have "settle_time (put_result k) \<le> settle_time (promise_all ?ps)" by blast
    then show ?thesis by simp
  qed
  with ok show ?thesis by blast
qed

lemma save_wait_rejected:
  assumes "\<exists>k < length (items (links_value s)). isl (outcome (put_result k))"
  shows "isl (outcome (promise_all (map put_result [0 ..< length (items (links_value s))])))
       \<and> (\<exists>k < length (items (links_value s)). isl (outcome (put_result k))
             \<and> clock (save_priorities put_result s) = max (clock s) (settle_time (put_result k)))
       \<and> (\<forall>k < length (items (links_value s)). isl (outcome (put_result k)) \<longrightarrow>
             clock (save_priorities put_result s) \<le> max (clock s) (settle_time (put_result k)))"
proof -
  let ?ps = "map put_result [0 ..< length (items (links_value s))]"
  from assms have "\<exists>p \<in> set ?ps. isl (outcome p)" by auto
  from promise_all_rejected [OF this]
  have rejected: "isl (outcome (promise_all ?ps))"
    and first: "\<exists>p \<in> set ?ps. isl (outcome p) \<and> settle_time (promise_all ?ps) = settle_time p"
    and least: "\<forall>p \<in> set ?ps. isl (outcome p) \<longrightarrow> settle_time (promise_all ?ps) \<le> settle_time p"
    by blast+
  from first obtain k where "k < length (items (links_value s))" "isl (outcome (put_result k))"
    "settle_time (promise_all ?ps) = settle_time (put_result k)"
    by auto
  then have one: "\<exists>k < length (items (links_value s)). isl (outcome (put_result k))
             \<and> clock (save_priorities put_result s) = max (clock s) (settle_time (put_result k))"
    by auto
  have "clock (save_priorities put_result s) \<le> max (clock s) (settle_time (put_result k))"
    if "k < length (items (links_value s))" "isl (outcome (put_result k))" for k
  proof -
    from that have "put_result k \<in> set ?ps" by simp
    with least that have "settle_time (promise_all ?ps) \<le> settle_time (put_result k)" by blast
    then show ?thesis by simp
  qed
  with rejected one show ?thesis by blast
qed

lemma refetch_after_fulfilled:
  assumes refs: "distinct (items (links_value s))"
    and ok: "\<forall>k < length (items (links_value s)). \<not> isl (outcome (put_result k))"
  shows "refetch_after_all_settled put_result resp s"
proof -
  from save_wait_fulfilled [OF ok]
  have le: "\<forall>k < length (items (links_value s)).
             settle_time (put_result k) \<le> clock (save_priorities put_result s)"
    by blast
  have later: "clock (save_priorities put_result s) \<le> t"
    if "(t, e) \<in> set (new_events (save_priorities put_result s) (handleSaveInBatch put_result resp s))"
    for t e
    using that unfolding handleSaveInBatch_def by (rule fetch_events_later)
  have puts: "list_all (\<lambda>(t, e). case e of
                   Request r \<Rightarrow> is_get_links r \<longrightarrow>
                       list_all (\<lambda>k. settle_time (put_result k) \<le> t)
                         [0 ..< length (items (links_value s))]
                 | _ \<Rightarrow> True)
       (map (\<lambda>p. (clock s, Request (put_request s p))) xs)" for xs
    by (induction xs) (auto simp: put_request_def is_get_links_def)
  have fetch: "list_all (\<lambda>(t, e). case e of
                   Request r \<Rightarrow> is_get_links r \<longrightarrow>
                       list_all (\<lambda>k. settle_time (put_result k) \<le> t)
                         [0 ..< length (items (links_value s))]
                 | _ \<Rightarrow> True)
       (new_events (save_priorities put_result s) (handleSaveInBatch put_result resp s))"
    unfolding list_all_iff
  proof (intro ballI)
    fix x
    assume x: "x \<in> set (new_events (save_priorities put_result s)
        (handleSaveInBatch put_result resp s))"
    obtain t e where xe: "x = (t, e)" by (cases x)
    with x later have "clock (save_priorities put_result s) \<le> t" by blast
    with le have "\<forall>k < length (items (links_value s)). settle_time (put_result k) \<le> t"
      by (meson le_trans)
    then show "case x of (t, e) \<Rightarrow> (case e of
                   Request r \<Rightarrow> is_get_links r \<longrightarrow>
                       (\<forall>k \<in> set [0 ..< length (items (links_value s))]. settle_time (put_result k) \<le> t)
                 | _ \<Rightarrow> True)"
      unfolding xe by (simp split: event.splits)
  qed
  show ?thesis
    unfolding refetch_after_all_settled_def save_events [OF refs] list_all_append
    using puts fetch by simp
qed

text \<open>
  Claim C1, as the code has it. A reorder ends on a page whose items are distinct objects
  with a \<open>spec\<close>. Then \<open>handleSaveInBatch\<close>
  \<^item> writes into each object of the sequence, in place, its zero-based position as priority;
  \<^item> makes exactly one update request per item, to the path of the item, with the item
    carrying its new priority as body;
  \<^item> then calls the muted refetch in all cases: it makes the list request of the selected
    group and never sets \<open>loading\<close>. The refetch starts when \<open>Promise.all\<close> settles: if every
    update is fulfilled, after all of them have settled; if some update is rejected, at the
    earliest rejection, with the error logged, whether or not the other updates have
    settled;
  \<^item> when every update is fulfilled and the identifiers of the page are unique, the server,
    in whatever order it receives the updates, holds for each item a priority equal to its
    position.
\<close>

theorem reorder_saves_positions:
  assumes refs: "distinct (items (links_value s))"
    and valid: "\<forall>a \<in> set (items (links_value s)). a < length (heap s) \<and> spec (heap s ! a) \<noteq> None"
  shows "(\<forall>k < length (items (links_value s)).
            heap (handleSaveInBatch put_result resp s) ! (items (links_value s) ! k)
              = with_priority (int k) (heap s ! (items (links_value s) ! k))
            \<and> map_option priority
                 (spec (heap (handleSaveInBatch put_result resp s) ! (items (links_value s) ! k)))
               = Some (Some (int k)))
       \<and> filter is_put_link (requests_of (new_events s (handleSaveInBatch put_result resp s)))
            = map (put_request s) (enumerate 0 (items (links_value s)))
       \<and> requests_of (new_events s (handleSaveInBatch put_result resp s))
            = map (put_request s) (enumerate 0 (items (links_value s)))
              @ (case membership (selectedGroup s) of
                   None \<Rightarrow> []
                 | Some ls \<Rightarrow> [GetLinks (page (links_value s)) (size_l (links_value s))
                                (fieldSelector ls)])
       \<and> (\<forall>ls. membership (selectedGroup s) = Some ls \<longrightarrow>
             (clock (save_priorities put_result s),
              Request (GetLinks (page (links_value s)) (size_l (links_value s)) (fieldSelector ls)))
               \<in> set (new_events s (handleSaveInBatch put_result resp s)))
       \<and> (\<forall>t. (t, SetLoading True) \<notin> set (new_events s (handleSaveInBatch put_result resp s)))
       \<and> ((\<forall>k < length (items (links_value s)). \<not> isl (outcome (put_result k))) \<longrightarrow>
             (\<forall>k < length (items (links_value s)).
                settle_time (put_result k) \<le> clock (save_priorities put_result s))
             \<and> refetch_after_all_settled put_result resp s)
       \<and> ((\<exists>k < length (items (links_value s)). isl (outcome (put_result k))) \<longrightarrow>
             (\<exists>k < length (items (links_value s)). isl (outcome (put_result k))
                \<and> clock (save_priorities put_result s)
                    = max (clock s) (settle_time (put_result k)))
             \<and> (\<forall>k < length (items (links_value s)). isl (outcome (put_result k)) \<longrightarrow>
                  clock (save_priorities put_result s)
                    \<le> max (clock s) (settle_time (put_result k)))
             \<and> (clock (save_priorities put_result s), ConsoleError)
                  \<in> set (new_events s (handleSaveInBatch put_result resp s)))
       \<and> ((\<forall>k < length (items (links_value s)). \<not> isl (outcome (put_result k)))
            \<and> distinct (map (\<lambda>l. name (metadata l)) (page_links s)) \<longrightarrow>
             (\<forall>reqs store.
                mset reqs = mset (filter is_put_link
                              (requests_of (new_events s (handleSaveInBatch put_result resp s))))
                \<longrightarrow> (\<forall>k < length (items (links_value s)).
                       \<exists>l. persist reqs store (name (metadata (heap s ! (items (links_value s) ! k))))
                              = Some l
                           \<and> map_option priority (spec l) = Some (Some (int k)))))"
proof -
  let ?xs = "items (links_value s)"
  let ?final = "handleSaveInBatch put_result resp s"
  have in_place: "\<forall>k < length ?xs.
            heap ?final ! (?xs ! k) = with_priority (int k) (heap s ! (?xs ! k))
            \<and> map_option priority (spec (heap ?final ! (?xs ! k))) = Some (Some (int k))"
  proof (intro allI impI)
    fix k
    assume k: "k < length ?xs"
    with valid have a: "?xs ! k < length (heap s)" and sp: "spec (heap s ! (?xs ! k)) \<noteq> None"
      by simp_all
    from save_heap [OF refs k a]
    have h: "heap ?final ! (?xs ! k) = with_priority (int k) (heap s ! (?xs ! k))" .
    with priority_with_priority [OF sp, of "int k"]
    show "heap ?final ! (?xs ! k) = with_priority (int k) (heap s ! (?xs ! k))
            \<and> map_option priority (spec (heap ?final ! (?xs ! k))) = Some (Some (int k))"
      by simp
  qed
  have puts: "filter is_put_link (requests_of (new_events s ?final))
      = map (put_request s) (enumerate 0 ?xs)"
    using refs by (rule save_put_requests)
  have reqs: "requests_of (new_events s ?final)
      = map (put_request s) (enumerate 0 ?xs)
        @ (case membership (selectedGroup s) of
             None \<Rightarrow> []
           | Some ls \<Rightarrow> [GetLinks (page (links_value s)) (size_l (links_value s))
                          (fieldSelector ls)])"
    using refs by (rule save_requests)
  have refetch: "\<forall>ls. membership (selectedGroup s) = Some ls \<longrightarrow>
             (clock (save_priorities put_result s),
              Request (GetLinks (page (links_value s)) (size_l (links_value s)) (fieldSelector ls)))
               \<in> set (new_events s ?final)"
  proof (intro allI impI)
    fix ls
    assume "membership (selectedGroup s) = Some ls"
    then have "membership (selectedGroup (save_priorities put_result s)) = Some ls"
      by simp
    from fetch_request_event [OF this, of "Some \<lparr>mute = Some True, page_option = None\<rparr>" resp]
    show "(clock (save_priorities put_result s),
              Request (GetLinks (page (links_value s)) (size_l (links_value s)) (fieldSelector ls)))
               \<in> set (new_events s ?final)"
      unfolding save_events [OF refs] by (simp add: handleSaveInBatch_def)
  qed
  have quiet: "\<forall>t. (t, SetLoading True) \<notin> set (new_events s ?final)"
  proof
    fix t
    have "(t, SetLoading True) \<notin> set (new_events (save_priorities put_result s) ?final)"
      unfolding handleSaveInBatch_def by (rule fetch_muted_no_loading) simp
    then show "(t, SetLoading True) \<notin> set (new_events s ?final)"
      unfolding save_events [OF refs] by auto
  qed
  have fulfilled: "(\<forall>k < length ?xs. \<not> isl (outcome (put_result k))) \<longrightarrow>
             (\<forall>k < length ?xs. settle_time (put_result k) \<le> clock (save_priorities put_result s))
             \<and> refetch_after_all_settled put_result resp s"
    using save_wait_fulfilled [of s put_result] refetch_after_fulfilled [OF refs, of put_result resp]
    by blast
  have rejected: "(\<exists>k < length ?xs. isl (outcome (put_result k))) \<longrightarrow>
             (\<exists>k < length ?xs. isl (outcome (put_result k))
                \<and> clock (save_priorities put_result s) = max (clock s) (settle_time (put_result k)))
             \<and> (\<forall>k < length ?xs. isl (outcome (put_result k)) \<longrightarrow>
                  clock (save_priorities put_result s) \<le> max (clock s) (settle_time (put_result k)))
             \<and> (clock (save_priorities put_result s), ConsoleError) \<in> set (new_events s ?final)"
  proof
    assume some: "\<exists>k < length ?xs. isl (outcome (put_result k))"
    note wait = save_wait_rejected [OF some]
    from wait have "isl (outcome (promise_all (map put_result [0 ..< length ?xs])))"
      by blast
    then have "(clock (save_priorities put_result s), ConsoleError) \<in> set (new_events s ?final)"
      unfolding save_events [OF refs] by simp
    with wait show "(\<exists>k < length ?xs. isl (outcome (put_result k))
                \<and> clock (save_priorities put_result s) = max (clock s) (settle_time (put_result k)))
             \<and> (\<forall>k < length ?xs. isl (outcome (put_result k)) \<longrightarrow>
                  clock (save_priorities put_result s) \<le> max (clock s) (settle_time (put_result k)))
             \<and> (clock (save_priorities put_result s), ConsoleError) \<in> set (new_events s ?final)"
      by blast
  qed
  have persisted: "(\<forall>k < length ?xs. \<not> isl (outcome (put_result k)))
            \<and> distinct (map (\<lambda>l. name (metadata l)) (page_links s)) \<longrightarrow>
             (\<forall>reqs store.
                mset reqs = mset (filter is_put_link (requests_of (new_events s ?final)))
                \<longrightarrow> (\<forall>k < length ?xs.
                       \<exists>l. persist reqs store (name (metadata (heap s ! (?xs ! k)))) = Some l
                           \<and> map_option priority (spec l) = Some (Some (int k))))"
  proof (intro impI allI)
    fix reqs :: "request list" and store :: "string \<rightharpoonup> link" and k
    assume "(\<forall>k < length ?xs. \<not> isl (outcome (put_result k)))
            \<and> distinct (map (\<lambda>l. name (metadata l)) (page_links s))"
    then have names: "distinct (map (\<lambda>l. name (metadata l)) (page_links s))" ..
    assume "mset reqs = mset (filter is_put_link (requests_of (new_events s ?final)))"
    then have arrival: "mset reqs = mset (map (put_request s) (enumerate 0 ?xs))"
      unfolding puts .
    assume k: "k < length ?xs"
    with valid have sp: "spec (heap s ! (?xs ! k)) \<noteq> None" by simp
    from persisted_positions [OF names arrival k, of store] priority_with_priority [OF sp, of "int k"]
    show "\<exists>l. persist reqs store (name (metadata (heap s ! (?xs ! k)))) = Some l
             \<and> map_option priority (spec l) = Some (Some (int k))"
      by blast
  qed
  from in_place puts reqs refetch quiet fulfilled rejected persisted show ?thesis
    by (intro conjI)
qed

theorem reorder_saves_positions_witness:
  "distinct (items (links_value reordered_state))
   \<and> list_all (\<lambda>a. a < length (heap reordered_state) \<and> spec (heap reordered_state ! a) \<noteq> None)
        (items (links_value reordered_state))
   \<and> list_all (\<lambda>k. \<not> isl (outcome (all_fulfilled k)))
        [0 ..< length (items (links_value reordered_state))]
   \<and> distinct (map (\<lambda>l. name (metadata l)) (page_links reordered_state))
   \<and> page_links reordered_state
        = [link_of ''a'' (Some 2), link_of ''b'' (Some 0), link_of ''c'' (Some 0)]
   \<and> page_links (handleSaveInBatch all_fulfilled late_failure reordered_state)
        = [link_of ''a'' (Some 0), link_of ''b'' (Some 1), link_of ''c'' (Some 2)]
   \<and> requests_of (new_events reordered_state
         (handleSaveInBatch all_fulfilled late_failure reordered_state))
        = [PutLink ''a'' (link_of ''a'' (Some 0)), PutLink ''b'' (link_of ''b'' (Some 1)),
           PutLink ''c'' (link_of ''c'' (Some 2)), GetLinks 1 20 ''name=(a,b,c)'']
   \<and> clock (save_priorities all_fulfilled reordered_state) = 4
   \<and> refetch_after_all_settled all_fulfilled late_failure reordered_state
   \<and> (\<exists>l. persist
             (rev (filter is_put_link (requests_of (new_events reordered_state
                (handleSaveInBatch all_fulfilled late_failure reordered_state)))))
             Map.empty ''c'' = Some l
          \<and> map_option priority (spec l) = Some (Some 2))"
proof -
  have refs: "distinct (items (links_value reordered_state))"
    by code_simp
  have valid: "\<forall>a \<in> set (items (links_value reordered_state)).
          a < length (heap reordered_state) \<and> spec (heap reordered_state ! a) \<noteq> None"
    by code_simp
  have size: "length (items (links_value reordered_state)) = 3"
    by code_simp
  have ok: "\<forall>k < length (items (links_value reordered_state)). \<not> isl (outcome (all_fulfilled k))"
    by (simp add: all_fulfilled_def)
  have names: "distinct (map (\<lambda>l. name (metadata l)) (page_links reordered_state))"
    by code_simp
  have before: "page_links reordered_state
        = [link_of ''a'' (Some 2), link_of ''b'' (Some 0), link_of ''c'' (Some 0)]"
    by code_simp
  have after: "page_links (handleSaveInBatch all_fulfilled late_failure reordered_state)
        = [link_of ''a'' (Some 0), link_of ''b'' (Some 1), link_of ''c'' (Some 2)]"
    by code_simp
  have requests: "requests_of (new_events reordered_state
         (handleSaveInBatch all_fulfilled late_failure reordered_state))
        = [PutLink ''a'' (link_of ''a'' (Some 0)), PutLink ''b'' (link_of ''b'' (Some 1)),
           PutLink ''c'' (link_of ''c'' (Some 2)), GetLinks 1 20 ''name=(a,b,c)'']"
    by code_simp
  have instant: "clock (save_priorities all_fulfilled reordered_state) = 4"
    by code_simp
  have third: "name (metadata (heap reordered_state ! (items (links_value reordered_state) ! 2)))
      = ''c''"
    by code_simp
  note saved = reorder_saves_positions [OF refs valid, of all_fulfilled late_failure]
  from saved ok have settled: "refetch_after_all_settled all_fulfilled late_failure reordered_state"
    by blast
  from saved ok names have "\<forall>reqs store.
      mset reqs = mset (filter is_put_link (requests_of (new_events reordered_state
                (handleSaveInBatch all_fulfilled late_failure reordered_state))))
      \<longrightarrow> (\<forall>k < length (items (links_value reordered_state)).
             \<exists>l. persist reqs store
                    (name (metadata (heap reordered_state ! (items (links_value reordered_state) ! k))))
                    = Some l
                 \<and> map_option priority (spec l) = Some (Some (int k)))"
    by blast
  then have every: "\<forall>k < length (items (links_value reordered_state)).
             \<exists>l. persist (rev (filter is_put_link (requests_of (new_events reordered_state
                (handleSaveInBatch all_fulfilled late_failure reordered_state))))) Map.empty
                    (name (metadata (heap reordered_state ! (items (links_value reordered_state) ! k))))
                    = Some l
                 \<and> map_option priority (spec l) = Some (Some (int k))"
    by simp
  have "2 < length (items (links_value reordered_state))"
    unfolding size by simp
  with every have "\<exists>l. persist (rev (filter is_put_link (requests_of (new_events reordered_state
                (handleSaveInBatch all_fulfilled late_failure reordered_state))))) Map.empty
                    (name (metadata (heap reordered_state ! (items (links_value reordered_state) ! 2))))
                    = Some l
                 \<and> map_option priority (spec l) = Some (Some (int 2))"
    by blast
  then have stored: "\<exists>l. persist
             (rev (filter is_put_link (requests_of (new_events reordered_state
                (handleSaveInBatch all_fulfilled late_failure reordered_state)))))
             Map.empty ''c'' = Some l
          \<and> map_option priority (spec l) = Some (Some 2)"
    unfolding third by simp
  from valid have valid': "list_all (\<lambda>a. a < length (heap reordered_state)
      \<and> spec (heap reordered_state ! a) \<noteq> None) (items (links_value reordered_state))"
    unfolding list_all_iff .
  from ok have ok': "list_all (\<lambda>k. \<not> isl (outcome (all_fulfilled k)))
      [0 ..< length (items (links_value reordered_state))]"
    unfolding list_all_iff by simp
  from refs valid' ok' names before after requests instant settled stored show ?thesis
    by (intro conjI)
qed

text \<open>
  The claim as written (the refetch is issued after all updates have settled, whether or
  not one of them failed) fails: the first of three updates is rejected at instant 2, the
  list request is made at instant 2, and the second update settles at instant 9.
\<close>

theorem refetch_before_settled_counterexample:
  "\<not> refetch_after_all_settled first_rejected late_failure reordered_state
   \<and> (2, Request (GetLinks 1 20 ''name=(a,b,c)''))
        \<in> set (new_events reordered_state
                 (handleSaveInBatch first_rejected late_failure reordered_state))
   \<and> settle_time (first_rejected 1) = 9"
  by code_simp

end
